theory Spec2Isabelle
  imports Main "HOL-Library.AList" "HOL-Library.Multiset" "HOL-Library.Word"
begin

section \<open>scope\_guard.hpp\<close>

text \<open>
  A call of a \<open>std::function<void()>\<close> either returns or throws; both leave a world behind.
  The world \<open>'w\<close> is whatever the cleanup function acts on.
\<close>

datatype 'w completion = Returns 'w | Throws 'w

fun world_of :: "'w completion \<Rightarrow> 'w" where
  "world_of (Returns w) = w"
| "world_of (Throws w) = w"

text \<open>
  \<open>class scope_guard_impl\<close>: the members \<open>m_func\<close> and \<open>m_dismissed\<close>. An empty
  \<open>std::function\<close> (what a moved-from one is left as) is \<open>None\<close>.
\<close>

record 'w scope_guard_impl =
  m_func :: "('w \<Rightarrow> 'w completion) option"
  m_dismissed :: bool

text \<open>\<open>std::function::operator()\<close>: an empty function throws \<open>std::bad_function_call\<close>.\<close>

definition invoke :: "('w \<Rightarrow> 'w completion) option \<Rightarrow> 'w \<Rightarrow> 'w completion" where
  "invoke f w = (case f of None \<Rightarrow> Throws w | Some body \<Rightarrow> body w)"

text \<open>\<open>try { ... } catch (...) { }\<close>: whatever the body throws is caught, the handler is empty.\<close>

definition catch_all :: "'w completion \<Rightarrow> 'w completion" where
  "catch_all c = (case c of Returns w \<Rightarrow> Returns w | Throws w \<Rightarrow> Returns w)"

text \<open>The constructor from a callable: \<open>m_func(p_func), m_dismissed(false)\<close>.\<close>

definition scope_guard_ctor :: "('w \<Rightarrow> 'w completion) \<Rightarrow> 'w scope_guard_impl" where
  "scope_guard_ctor p_func = \<lparr>m_func = Some p_func, m_dismissed = False\<rparr>"

text \<open>The destructor: \<open>if (!m_dismissed) { try { m_func(); } catch (...) { } }\<close>.\<close>

definition scope_guard_dtor :: "'w scope_guard_impl \<Rightarrow> 'w \<Rightarrow> 'w completion" where
  "scope_guard_dtor g w =
     (if \<not> m_dismissed g then catch_all (invoke (m_func g) w) else Returns w)"

text \<open>
  The move constructor: the new guard takes \<open>p_other\<close>'s function and its flag, then
  \<open>p_other.m_dismissed = true\<close>. The result is the new guard and what is left of
  \<open>p_other\<close>.
\<close>

definition scope_guard_move ::
  "'w scope_guard_impl \<Rightarrow> 'w scope_guard_impl \<times> 'w scope_guard_impl" where
  "scope_guard_move p_other =
     (\<lparr>m_func = m_func p_other, m_dismissed = m_dismissed p_other\<rparr>,
      \<lparr>m_func = None, m_dismissed = True\<rparr>)"

text \<open>\<open>dismiss()\<close>: \<open>m_dismissed = true\<close>.\<close>

definition dismiss :: "'w scope_guard_impl \<Rightarrow> 'w scope_guard_impl" where
  "dismiss g = g\<lparr>m_dismissed := True\<rparr>"

text \<open>
  What can happen to a guard between its construction and its destruction: \<open>dismiss()\<close> is
  called on it, or another guard is move-constructed from it.
\<close>

datatype guard_op = Dismiss | Moved_from

fun guard_apply :: "guard_op \<Rightarrow> 'w scope_guard_impl \<Rightarrow> 'w scope_guard_impl" where
  "guard_apply Dismiss g = dismiss g"
| "guard_apply Moved_from g = snd (scope_guard_move g)"

definition guard_life :: "guard_op list \<Rightarrow> 'w scope_guard_impl \<Rightarrow> 'w scope_guard_impl" where
  "guard_life ops g = fold guard_apply ops g"

text \<open>
  A cleanup function on a world with a counter of its own executions: \<open>counting body\<close> runs
  \<open>body\<close> and counts the run, whether \<open>body\<close> returns or throws.
\<close>

definition counting :: "('u \<Rightarrow> 'u completion) \<Rightarrow> nat \<times> 'u \<Rightarrow> (nat \<times> 'u) completion" where
  "counting body = (\<lambda>(n, u).
     case body u of Returns u' \<Rightarrow> Returns (Suc n, u') | Throws u' \<Rightarrow> Throws (Suc n, u'))"

section \<open>gst-soup-server-example.cpp: class http\_stream\_pipeline\<close>

type_synonym GSocket = nat
type_synonym GIOStream = nat

datatype GstState =
  GST_STATE_VOID_PENDING | GST_STATE_NULL | GST_STATE_READY | GST_STATE_PAUSED | GST_STATE_PLAYING

fun gst_element_state_get_name :: "GstState \<Rightarrow> string" where
  "gst_element_state_get_name GST_STATE_VOID_PENDING = ''VOID_PENDING''"
| "gst_element_state_get_name GST_STATE_NULL = ''NULL''"
| "gst_element_state_get_name GST_STATE_READY = ''READY''"
| "gst_element_state_get_name GST_STATE_PAUSED = ''PAUSED''"
| "gst_element_state_get_name GST_STATE_PLAYING = ''PLAYING''"

text \<open>
  The bus messages \<open>bus_watch\<close> switches on, with the fields it reads: whether a state
  change comes from the toplevel pipeline and its three states, the name of an element
  message's structure, the text and debug info of an info, warning or error, the source
  name and state of a state request. \<open>GST_MESSAGE_OTHER\<close> is every other message type.
\<close>

datatype GstMessage =
  GST_MESSAGE_STATE_CHANGED bool GstState GstState GstState
| GST_MESSAGE_ELEMENT string
| GST_MESSAGE_EOS
| GST_MESSAGE_INFO string string
| GST_MESSAGE_WARNING string string
| GST_MESSAGE_ERROR string string
| GST_MESSAGE_REQUEST_STATE string GstState
| GST_MESSAGE_LATENCY
| GST_MESSAGE_OTHER

text \<open>What is streamed to \<open>std::cerr\<close>: text, and pointers in hexadecimal or numbers in decimal.\<close>

datatype log_item = Str string | Hex nat | Dec nat

text \<open>
  The calls into GStreamer and GIO that act on the world outside the object, in the order
  they are made. \<open>Set_state st ok\<close> is \<open>gst_element_set_state(m_pipeline, st)\<close> and
  whether it returned something other than \<open>GST_STATE_CHANGE_FAILURE\<close>.
\<close>

datatype call =
  Set_state GstState bool
| Emit_add GSocket
| Emit_clear
| Io_stream_close GIOStream
| Post_message GstMessage
| Dot_file string
| Recalculate_latency

text \<open>
  The object: \<open>m_clients\<close> (a \<open>std::map\<close>, here an association list with one entry per
  key) and \<open>m_content_type\<close>; and what stands behind \<open>m_multisocketsink\<close> and
  \<open>m_pipeline\<close>: the sockets the sink holds, the state the pipeline was last set to, the
  messages waiting on its bus. \<open>calls\<close> and \<open>cerr\<close> record what the object did.
\<close>

record http_stream_pipeline =
  m_clients :: "(GSocket \<times> GIOStream) list"
  m_content_type :: string
  sink_sockets :: "GSocket list"
  pipeline_state :: GstState
  bus :: "GstMessage list"
  calls :: "call list"
  cerr :: "log_item list"

text \<open>
  A member function returns (\<open>Inr\<close>) or throws \<open>std::runtime_error\<close> (\<open>Inl\<close>, with
  \<open>what()\<close>); either way the object is left in some state.
\<close>

type_synonym outcome = "(string \<times> http_stream_pipeline) + http_stream_pipeline"

fun object_of :: "outcome \<Rightarrow> http_stream_pipeline" where
  "object_of (Inl (msg, s)) = s"
| "object_of (Inr s) = s"

definition write_cerr :: "log_item list \<Rightarrow> http_stream_pipeline \<Rightarrow> http_stream_pipeline" where
  "write_cerr items s = s\<lparr>cerr := cerr s @ items\<rparr>"

definition called :: "call \<Rightarrow> http_stream_pipeline \<Rightarrow> http_stream_pipeline" where
  "called c s = s\<lparr>calls := calls s @ [c]\<rparr>"

text \<open>
  \<open>gst_element_set_state(m_pipeline, st)\<close>. Whether the engine accepts the change is not
  decided by this program: \<open>ok\<close> is the engine's answer. An accepted change makes \<open>st\<close>
  the pipeline's state; a refused one leaves the state as it was.
\<close>

definition gst_element_set_state ::
  "bool \<Rightarrow> GstState \<Rightarrow> http_stream_pipeline \<Rightarrow> http_stream_pipeline" where
  "gst_element_set_state ok st s =
     (called (Set_state st ok) s)\<lparr>pipeline_state := (if ok then st else pipeline_state s)\<rparr>"

text \<open>\<open>gst_element_post_message\<close>: the message is appended to the pipeline's bus.\<close>

definition gst_element_post_message ::
  "GstMessage \<Rightarrow> http_stream_pipeline \<Rightarrow> http_stream_pipeline" where
  "gst_element_post_message m s = (called (Post_message m) s)\<lparr>bus := bus s @ [m]\<rparr>"

text \<open>\<open>play(p_do_play)\<close>: PLAYING or READY; a refused change throws.\<close>

definition play :: "bool \<Rightarrow> bool \<Rightarrow> http_stream_pipeline \<Rightarrow> outcome" where
  "play ok p_do_play s =
     (let s' = gst_element_set_state ok
                 (if p_do_play then GST_STATE_PLAYING else GST_STATE_READY) s
      in if \<not> ok then Inl (''failed to set pipeline state'', s') else Inr s')"

text \<open>
  The sink's \<open>add\<close> action. The multisocketsink is GStreamer's, not this program's: it
  keeps one entry per socket and refuses a socket it already holds.
\<close>

definition emit_add :: "GSocket \<Rightarrow> http_stream_pipeline \<Rightarrow> http_stream_pipeline" where
  "emit_add p_socket s =
     (called (Emit_add p_socket) s)
       \<lparr>sink_sockets := (if p_socket \<in> set (sink_sockets s) then sink_sockets s
                         else sink_sockets s @ [p_socket])\<rparr>"

text \<open>
  \<open>add_client(p_stream, p_socket)\<close>, under the mutex: \<open>m_clients[p_socket] = p_stream\<close>,
  the \<open>add\<close> signal, and \<open>play(true)\<close> when the map then holds one entry.
\<close>

definition add_client ::
  "bool \<Rightarrow> GIOStream \<Rightarrow> GSocket \<Rightarrow> http_stream_pipeline \<Rightarrow> outcome" where
  "add_client ok p_stream p_socket s =
     (let s1 = s\<lparr>m_clients := AList.update p_socket p_stream (m_clients s)\<rparr>;
          s2 = emit_add p_socket s1;
          s3 = write_cerr [Str ''Adding socket '', Hex p_socket, Str ''\<newline>''] s2
      in if length (m_clients s3) = 1
         then play ok True
                (write_cerr [Str ''A client just connected, and pipeline isn't running yet - setting pipeline state to PLAYING\<newline>''] s3)
         else Inr s3)"

text \<open>
  \<open>on_client_socket_removed(p_element, p_socket, self)\<close>, under the mutex: an unknown
  socket is ignored; a known one has its stream closed and its entry erased, and when the
  map is then empty the \<open>StopPipeline\<close> element message is posted.
\<close>

definition on_client_socket_removed ::
  "GSocket \<Rightarrow> http_stream_pipeline \<Rightarrow> http_stream_pipeline" where
  "on_client_socket_removed p_socket self =
     (let s1 = write_cerr [Str ''Client with socket '', Hex p_socket, Str '' got removed\<newline>''] self
      in case map_of (m_clients s1) p_socket of
           None \<Rightarrow> write_cerr [Str ''Socket is not in list - ignoring\<newline>''] s1
         | Some stream \<Rightarrow>
             (let s2 = called (Io_stream_close stream) s1;
                  s3 = s2\<lparr>m_clients := AList.delete p_socket (m_clients s2)\<rparr>
              in if m_clients s3 = []
                 then gst_element_post_message (GST_MESSAGE_ELEMENT ''StopPipeline'')
                        (write_cerr [Str ''No clients connected - setting pipeline state to READY\<newline>''] s3)
                 else s3))"

text \<open>
  The sink lets go of one socket (a timeout, a write error, the peer closing, or as part of
  \<open>clear\<close>) and emits \<open>client-socket-removed\<close> for it, which runs the callback. The sink
  is GStreamer's; it emits the signal only for a socket it holds.
\<close>

definition sink_remove :: "GSocket \<Rightarrow> http_stream_pipeline \<Rightarrow> http_stream_pipeline" where
  "sink_remove p_socket s =
     (if p_socket \<in> set (sink_sockets s)
      then on_client_socket_removed p_socket
             (s\<lparr>sink_sockets := removeAll p_socket (sink_sockets s)\<rparr>)
      else s)"

text \<open>
  The sink's \<open>clear\<close> action: as the source's comment says, it invokes
  \<open>on_client_socket_removed()\<close> for each one of the sockets.
\<close>

definition emit_clear :: "http_stream_pipeline \<Rightarrow> http_stream_pipeline" where
  "emit_clear s = fold sink_remove (sink_sockets s) (called Emit_clear s)"

text \<open>
  \<open>bus_watch\<close>, the switch on the message type. \<open>ok\<close> is the engine's answer to the one
  \<open>gst_element_set_state\<close> a message can lead to.
\<close>

fun bus_watch :: "bool \<Rightarrow> GstMessage \<Rightarrow> http_stream_pipeline \<Rightarrow> outcome" where
  "bus_watch ok (GST_MESSAGE_STATE_CHANGED from_pipeline old_state new_state pending_state) s =
     (if \<not> from_pipeline then Inr s
      else Inr (called (Dot_file (''statechange-'' @
                  ''old-'' @ gst_element_state_get_name old_state @ ''-'' @
                  ''cur-'' @ gst_element_state_get_name new_state @ ''-'' @
                  ''pending-'' @ gst_element_state_get_name pending_state))
             (write_cerr [Str ''State change: '',
                   Str '' old '', Str (gst_element_state_get_name old_state),
                   Str '' new '', Str (gst_element_state_get_name new_state),
                   Str '' pending '', Str (gst_element_state_get_name pending_state),
                   Str ''\<newline>''] s)))"
| "bus_watch ok (GST_MESSAGE_ELEMENT name) s =
     (if name = ''StopPipeline'' then play ok False s else Inr s)"
| "bus_watch ok GST_MESSAGE_EOS s =
     (case play ok False (write_cerr [Str ''EOS received - halting pipeline\<newline>''] s) of
        Inl e \<Rightarrow> Inl e
      | Inr s1 \<Rightarrow> Inr (emit_clear s1))"
| "bus_watch ok (GST_MESSAGE_INFO msg debug_info) s =
     Inr (write_cerr [Str ''INFO: '', Str msg, Str ''; debug info: '', Str debug_info, Str ''\<newline>''] s)"
| "bus_watch ok (GST_MESSAGE_WARNING msg debug_info) s =
     Inr (write_cerr [Str ''WARNING: '', Str msg, Str ''; debug info: '', Str debug_info, Str ''\<newline>''] s)"
| "bus_watch ok (GST_MESSAGE_ERROR msg debug_info) s =
     (let s1 = write_cerr [Str ''ERROR: '', Str msg, Str ''; debug info: '', Str debug_info, Str ''\<newline>''] s;
          s2 = called (Dot_file ''error'') s1;
          s3 = write_cerr [Str ''Stopping pipeline due to error\<newline>''] s2
      in case play ok False s3 of
           Inl e \<Rightarrow> Inl e
         | Inr s4 \<Rightarrow> Inr (emit_clear s4))"
| "bus_watch ok (GST_MESSAGE_REQUEST_STATE src_name requested_state) s =
     Inr (gst_element_set_state ok requested_state
            (write_cerr [Str ''State change to '', Str (gst_element_state_get_name requested_state),
                  Str '' was requested by '', Str src_name, Str ''\<newline>''] s))"
| "bus_watch ok GST_MESSAGE_LATENCY s =
     Inr (called Recalculate_latency (write_cerr [Str ''Redistributing latency\<newline>''] s))"
| "bus_watch ok GST_MESSAGE_OTHER s = Inr s"

text \<open>
  The object as the constructor leaves it when nothing fails: no clients, an empty sink,
  the pipeline set to READY as the constructor's last step.
\<close>

definition constructed :: "string \<Rightarrow> http_stream_pipeline" where
  "constructed p_content_type =
     \<lparr>m_clients = [], m_content_type = p_content_type, sink_sockets = [],
      pipeline_state = GST_STATE_READY, bus = [],
      calls = [Set_state GST_STATE_READY True], cerr = []\<rparr>"

text \<open>
  What the engine and the libraries answer during one construction: the \<open>GError\<close> message
  of \<open>gst_parse_launchv\<close> when it returns null, whether the bin has an element named
  \<open>stream\<close>, whether that element has a \<open>src\<close> pad, whether the multisocketsink could be
  made, whether the change to READY was accepted.
\<close>

record construction =
  parse_launchv_error :: "string option"
  stream_element_found :: bool
  src_pad_found :: bool
  multisocketsink_made :: bool
  ready_accepted :: bool

text \<open>
  The constructor: each failure throws \<open>std::runtime_error\<close> with the message of the
  source. (The unref calls of the constructor and of its scope guard are not part of the
  model.)
\<close>

definition http_stream_pipeline_ctor ::
  "construction \<Rightarrow> string \<Rightarrow> string + http_stream_pipeline" where
  "http_stream_pipeline_ctor c p_content_type =
     (case parse_launchv_error c of
        Some message \<Rightarrow> Inl (''could not parse pipeline: '' @ message)
      | None \<Rightarrow>
          if \<not> stream_element_found c
          then Inl (''no element with name '' @ [CHR 0x22] @ ''stream'' @ [CHR 0x22] @ '' found'')
          else if \<not> src_pad_found c
          then Inl (''no '' @ [CHR 0x22] @ ''src'' @ [CHR 0x22] @ '' pad in element '' @
                    [CHR 0x22] @ ''stream'' @ [CHR 0x22] @ '' found\<newline>'')
          else if \<not> multisocketsink_made c then Inl ''could not create multisocketsink''
          else if \<not> ready_accepted c then Inl ''failed to set pipeline state to READY''
          else Inr (constructed p_content_type))"

subsection \<open>The three execution contexts as events\<close>

text \<open>
  What happens to the object while the main loop runs. \<open>Wrote_headers\<close>: the HTTP
  handler's callback hands a stolen connection to \<open>add_client\<close>. \<open>Sink_removes\<close>: the
  sink, in the streaming thread, lets go of a socket. \<open>Engine_posts\<close>: the engine puts a
  message on the bus. \<open>Bus_dispatch\<close>: the main loop runs \<open>bus_watch\<close> on the oldest
  waiting message. The booleans are the engine's answer to a state change the event leads
  to. Each event runs as a whole (the two callbacks that touch \<open>m_clients\<close> hold the
  mutex from their first to their last statement).
\<close>

datatype event =
  Wrote_headers bool GIOStream GSocket
| Sink_removes GSocket
| Engine_posts GstMessage
| Bus_dispatch bool

fun step :: "event \<Rightarrow> http_stream_pipeline \<Rightarrow> outcome" where
  "step (Wrote_headers ok p_stream p_socket) s = add_client ok p_stream p_socket s"
| "step (Sink_removes p_socket) s = Inr (sink_remove p_socket s)"
| "step (Engine_posts m) s = Inr (s\<lparr>bus := bus s @ [m]\<rparr>)"
| "step (Bus_dispatch ok) s =
     (case bus s of [] \<Rightarrow> Inr s | m # ms \<Rightarrow> bus_watch ok m (s\<lparr>bus := ms\<rparr>))"

text \<open>A sequence of events; an exception ends it.\<close>

fun run :: "event list \<Rightarrow> http_stream_pipeline \<Rightarrow> outcome" where
  "run [] s = Inr s"
| "run (e # es) s = (case step e s of Inl x \<Rightarrow> Inl x | Inr s' \<Rightarrow> run es s')"

text \<open>The messages the engine itself posts in a sequence of events.\<close>

fun posted :: "event list \<Rightarrow> GstMessage list" where
  "posted [] = []"
| "posted (Engine_posts m # es) = m # posted es"
| "posted (e # es) = posted es"

fun is_request_state :: "GstMessage \<Rightarrow> bool" where
  "is_request_state (GST_MESSAGE_REQUEST_STATE src_name st) = True"
| "is_request_state m = False"

text \<open>No stop request is waiting on the bus: the last one posted has been handled.\<close>

definition settled :: "http_stream_pipeline \<Rightarrow> bool" where
  "settled s = (GST_MESSAGE_ELEMENT ''StopPipeline'' \<notin> set (bus s))"

text \<open>The registry and the sink hold the same sockets, each of them once.\<close>

definition paired :: "http_stream_pipeline \<Rightarrow> bool" where
  "paired s = (distinct (map fst (m_clients s)) \<and> distinct (sink_sockets s) \<and>
               set (map fst (m_clients s)) = set (sink_sockets s))"

text \<open>
  A run without the race between a new client and a waiting stop request: a client is
  registered only when no stop request waits on the bus, and the engine posts no
  \<open>StopPipeline\<close> message of its own. \<open>in_order e s\<close> says so of one event in the state
  it meets, \<open>orderly\<close> of every event of a run.
\<close>

fun in_order :: "event \<Rightarrow> http_stream_pipeline \<Rightarrow> bool" where
  "in_order (Wrote_headers ok p_stream p_socket) s = settled s"
| "in_order (Sink_removes p_socket) s = True"
| "in_order (Engine_posts m) s = (m \<noteq> GST_MESSAGE_ELEMENT ''StopPipeline'')"
| "in_order (Bus_dispatch ok) s = True"

fun orderly :: "event list \<Rightarrow> http_stream_pipeline \<Rightarrow> bool" where
  "orderly [] s = True"
| "orderly (e # es) s =
     (in_order e s \<and> (case step e s of Inl x \<Rightarrow> True | Inr s' \<Rightarrow> orderly es s'))"

text \<open>
  The state changes asked of the pipeline among the calls made, in order, each with the
  engine's answer. \<open>play(true)\<close> is the change to PLAYING, \<open>play(false)\<close> the one to READY.
\<close>

fun state_changes :: "call list \<Rightarrow> (GstState \<times> bool) list" where
  "state_changes [] = []"
| "state_changes (Set_state st ok # cs) = (st, ok) # state_changes cs"
| "state_changes (c # cs) = state_changes cs"

text \<open>The streams closed among the calls made, in order.\<close>

fun closes :: "call list \<Rightarrow> GIOStream list" where
  "closes [] = []"
| "closes (Io_stream_close stream # cs) = stream # closes cs"
| "closes (c # cs) = closes cs"

text \<open>The messages posted by the object itself among the calls made, in order.\<close>

fun posts :: "call list \<Rightarrow> GstMessage list" where
  "posts [] = []"
| "posts (Post_message m # cs) = m # posts cs"
| "posts (c # cs) = posts cs"

section \<open>gst-soup-server-example.cpp: main\<close>

subsection \<open>std::stoi\<close>

text \<open>
  \<open>std::stoi\<close> is the C++ standard library's: \<open>strtol\<close> with base 10, then the range
  check of \<open>int\<close>. It skips leading white space, takes an optional sign, then the longest
  run of decimal digits; what follows the digits is left unread. With no digit it throws
  \<open>std::invalid_argument\<close>, with a value no \<open>int\<close> holds \<open>std::out_of_range\<close>.
\<close>

definition isspace :: "char \<Rightarrow> bool" where
  "isspace c = (c = CHR '' '' \<or> c = CHR 0x09 \<or> c = CHR 0x0A \<or> c = CHR 0x0B \<or>
                c = CHR 0x0C \<or> c = CHR 0x0D)"

definition isdigit :: "char \<Rightarrow> bool" where
  "isdigit c = (48 \<le> (of_char c :: nat) \<and> (of_char c :: nat) \<le> 57)"

definition digits_value :: "string \<Rightarrow> int" where
  "digits_value ds = foldl (\<lambda>a c. 10 * a + (int (of_char c) - 48)) 0 ds"

datatype stoi_error = Invalid_argument | Out_of_range

definition stoi :: "string \<Rightarrow> stoi_error + int" where
  "stoi str =
     (let s1 = dropWhile isspace str;
          negative = (case s1 of [] \<Rightarrow> False | c # r \<Rightarrow> c = CHR ''-'');
          s2 = (case s1 of [] \<Rightarrow> s1
                | c # r \<Rightarrow> if c = CHR ''-'' \<or> c = CHR ''+'' then r else s1);
          ds = takeWhile isdigit s2
      in if ds = [] then Inl Invalid_argument
         else let v = (if negative then - digits_value ds else digits_value ds)
              in if v < - (2 ^ 31) \<or> 2 ^ 31 - 1 < v then Inl Out_of_range else Inr v)"

text \<open>
  The specification's words, "a valid integer": an optional sign and then decimal digits,
  at least one, and nothing else; and the integer such a string denotes.
\<close>

definition valid_integer :: "string \<Rightarrow> bool" where
  "valid_integer str =
     (case str of
        [] \<Rightarrow> False
      | c # r \<Rightarrow> if c = CHR ''-'' \<or> c = CHR ''+'' then r \<noteq> [] \<and> list_all isdigit r
                 else list_all isdigit str)"

definition integer_denoted :: "string \<Rightarrow> int" where
  "integer_denoted str =
     (case str of
        [] \<Rightarrow> 0
      | c # r \<Rightarrow> if c = CHR ''-'' then - digits_value r
                 else if c = CHR ''+'' then digits_value r else digits_value str)"

subsection \<open>The process\<close>

text \<open>
  What \<open>main\<close> does to the world outside the pipeline object: the HTTP server's and the
  main loop's calls, the unref of each scope guard, the pipeline's destructor.
\<close>

datatype main_call =
  Soup_server_add_handler
| Soup_server_listen_all "32 word"
| G_main_loop_run
| G_object_unref_soup_server
| G_main_loop_unref
| Pipeline_dtor

record process =
  proc_cerr :: "log_item list"
  proc_calls :: "main_call list"

definition print :: "log_item list \<Rightarrow> process \<Rightarrow> process" where
  "print items w = w\<lparr>proc_cerr := proc_cerr w @ items\<rparr>"

definition did :: "main_call \<Rightarrow> process \<Rightarrow> process" where
  "did c w = w\<lparr>proc_calls := proc_calls w @ [c]\<rparr>"

text \<open>
  What one run meets: whether \<open>soup_server_new\<close> and \<open>g_main_loop_new\<close> return an
  object, the answers to the pipeline's construction, the \<open>GError\<close> message of
  \<open>soup_server_listen_all\<close> when it fails, and the events the main loop dispatches before
  a signal handler quits it.
\<close>

record environment =
  soup_server_new_ok :: bool
  main_loop_new_ok :: bool
  construction_answers :: construction
  listen_all_error :: "string option"
  schedule :: "event list"

text \<open>
  How the run ends: \<open>main\<close> returns a value, or an exception is thrown by a callback inside
  \<open>g_main_loop_run\<close>, whose frames are GLib's; what happens then is not this program's to
  say.
\<close>

datatype exit = Returned int | Thrown_in_main_loop string

text \<open>The exit status the system reports for a returned value: its low eight bits.\<close>

fun exit_status :: "exit \<Rightarrow> nat option" where
  "exit_status (Returned r) = Some (nat (r mod 256))"
| "exit_status (Thrown_in_main_loop what) = None"

text \<open>Leaving \<open>main\<close>: the destructors of the scope guards, the last constructed first.\<close>

definition leave :: "process scope_guard_impl list \<Rightarrow> process \<Rightarrow> process" where
  "leave guards w = fold (\<lambda>g w. world_of (scope_guard_dtor g w)) guards w"

text \<open>\<open>argv[0]\<close>; without any argument there is no name to print.\<close>

definition program_name :: "string list \<Rightarrow> string" where
  "program_name argv = (case argv of [] \<Rightarrow> [] | a # rest \<Rightarrow> a)"

text \<open>
  \<open>exit_sighandler\<close>, run by the main loop on SIGINT or SIGTERM: it prints its line and
  quits the loop, which makes \<open>g_main_loop_run\<close> return.
\<close>

definition exit_sighandler :: "process \<Rightarrow> process" where
  "exit_sighandler w = print [Str ''caught signal, stopping mainloop\<newline>''] w"

text \<open>
  The \<open>try\<close> block of \<open>main\<close> with its handler and the two statements after it:
  construction, the handler, listening, the main loop. An exception of the constructor is
  caught, printed, and control goes on to \<open>Quitting\<close> and \<open>return 0\<close>.
\<close>

definition serve ::
  "environment \<Rightarrow> string list \<Rightarrow> 32 word \<Rightarrow> process scope_guard_impl list \<Rightarrow> process
     \<Rightarrow> exit \<times> process" where
  "serve env argv port guards w =
     (case http_stream_pipeline_ctor (construction_answers env) (argv ! 2) of
        Inl what \<Rightarrow>
          (Returned 0,
           leave guards
             (print [Str ''Quitting\<newline>'']
                (print [Str ''Exception caught: '', Str what, Str ''\<newline>''] w)))
      | Inr pipeline \<Rightarrow>
          (let w1 = did (Soup_server_listen_all port) (did Soup_server_add_handler w)
           in case listen_all_error env of
                Some message \<Rightarrow>
                  (Returned (- 1),
                   leave guards
                     (did Pipeline_dtor
                        (print [Str ''could not start listening: '', Str message,
                                Str ''\<newline>''] w1)))
              | None \<Rightarrow>
                  (let w2 = did G_main_loop_run
                              (print [Str ''Listening for incoming HTTP requests on port '',
                                      Dec (unat port), Str ''\<newline>''] w1)
                   in case run (schedule env) pipeline of
                        Inl (what, p) \<Rightarrow> (Thrown_in_main_loop what, print (cerr p) w2)
                      | Inr p \<Rightarrow>
                          (Returned 0,
                           leave guards
                             (print [Str ''Quitting\<newline>'']
                                (did Pipeline_dtor (exit_sighandler (print (cerr p) w2))))))))"

text \<open>
  \<open>main\<close>, on the arguments \<open>gst_init\<close> has left: the argument count, the server, the
  main loop, the port, then \<open>serve\<close>. \<open>guint port = std::stoi(argv[1])\<close> converts the
  \<open>int\<close> to 32 bits without sign.
\<close>

definition main :: "environment \<Rightarrow> string list \<Rightarrow> exit \<times> process" where
  "main env argv =
     (let w0 = \<lparr>proc_cerr = [], proc_calls = []\<rparr> in
      if length argv < 5
      then (Returned (- 1),
            print [Str ''Example: '', Str (program_name argv),
                   Str '' 8080 ( videotestsrc ! theoraenc ! oggmux name=stream )\<newline>'']
              (print [Str ''Usage: '', Str (program_name argv),
                      Str '' PORT CONTENT-TYPE <launch line>\<newline>''] w0))
      else if \<not> soup_server_new_ok env
      then (Returned (- 1), print [Str ''Could not create Soup server\<newline>''] w0)
      else
        let soup_server_guard =
              scope_guard_ctor (\<lambda>w. Returns (did G_object_unref_soup_server w))
        in if \<not> main_loop_new_ok env
           then (Returned (- 1),
                 leave [soup_server_guard]
                   (print [Str ''Could not create GLib mainloop\<newline>''] w0))
           else
             let mainloop_guard = scope_guard_ctor (\<lambda>w. Returns (did G_main_loop_unref w));
                 guards = [mainloop_guard, soup_server_guard]
             in case stoi (argv ! 1) of
                  Inl e \<Rightarrow>
                    (Returned (- 1),
                     leave guards
                       (print [Str (''Invalid port number '' @ [CHR 0x22]), Str (argv ! 1),
                               Str ([CHR 0x22] @ ''\<newline>'')] w0))
                | Inr v \<Rightarrow> serve env argv (word_of_int v) guards w0)"

section \<open>Auxiliary definitions for the proofs\<close>

text \<open>The stream the registry holds for a socket, as a list: empty for an unknown socket.\<close>

definition stream_at :: "(GSocket \<times> GIOStream) list \<Rightarrow> GSocket \<Rightarrow> GIOStream list" where
  "stream_at al k = (case map_of al k of None \<Rightarrow> [] | Some v \<Rightarrow> [v])"

text \<open>
  The invariant behind the READY state: an empty registry with no stop request waiting
  means READY, and no state request waits on the bus.
\<close>

definition stop_inv :: "http_stream_pipeline \<Rightarrow> bool" where
  "stop_inv s = ((m_clients s = [] \<and> settled s \<longrightarrow> pipeline_state s = GST_STATE_READY) \<and>
                 (\<forall>m\<in>set (bus s). \<not> is_request_state m))"

text \<open>
  The invariant behind the PLAYING state: while clients are registered the pipeline is in
  PLAYING and no stop request waits.
\<close>

definition play_inv :: "http_stream_pipeline \<Rightarrow> bool" where
  "play_inv s = (m_clients s \<noteq> [] \<longrightarrow> pipeline_state s = GST_STATE_PLAYING \<and> settled s)"

text \<open>
  Concrete objects and runs: one client (socket 1, stream 10), a second one (socket 2,
  stream 20); a last client leaving and its stop request handled; the run in which a
  new client arrives between the last client leaving and the stop request being handled,
  and the run in which it arrives after the stop request has been handled; two clients
  coming and going.
\<close>

definition fresh :: http_stream_pipeline where
  "fresh = constructed ''application/ogg''"

definition one_client :: http_stream_pipeline where
  "one_client = object_of (add_client True 10 1 fresh)"

definition two_clients :: http_stream_pipeline where
  "two_clients = object_of (add_client True 20 2 one_client)"

definition last_client_leaves :: "event list" where
  "last_client_leaves = [Wrote_headers True 10 1, Sink_removes 1, Bus_dispatch True]"

definition stale_stop_request :: "event list" where
  "stale_stop_request =
     [Wrote_headers True 10 1, Sink_removes 1, Wrote_headers True 20 2, Bus_dispatch True]"

definition stop_then_new_client :: "event list" where
  "stop_then_new_client =
     [Wrote_headers True 10 1, Sink_removes 1, Bus_dispatch True, Wrote_headers True 20 2]"

definition come_and_go :: "event list" where
  "come_and_go =
     [Wrote_headers True 10 1, Wrote_headers True 20 2, Sink_removes 1, Sink_removes 2]"

text \<open>
  Concrete runs of the process: an environment in which every call succeeds and no event
  arrives before the signal; the same with a launch line that names no element
  \<open>stream\<close>, so that \<open>gst_bin_get_by_name\<close> returns null; and three command lines.
\<close>

definition all_succeed :: environment where
  "all_succeed =
     \<lparr>soup_server_new_ok = True, main_loop_new_ok = True,
      construction_answers =
        \<lparr>parse_launchv_error = None, stream_element_found = True, src_pad_found = True,
         multisocketsink_made = True, ready_accepted = True\<rparr>,
      listen_all_error = None, schedule = []\<rparr>"

definition no_stream_element :: environment where
  "no_stream_element =
     all_succeed\<lparr>construction_answers :=
       (construction_answers all_succeed)\<lparr>stream_element_found := False\<rparr>\<rparr>"

definition command_line :: "string \<Rightarrow> string list" where
  "command_line port =
     [''gst-soup-server-example'', port, ''application/ogg'',
      ''videotestsrc'', ''!'', ''theoraenc'', ''!'', ''oggmux'', ''name=stream'']"

definition unnamed_command_line :: "string list" where
  "unnamed_command_line =
     [''gst-soup-server-example'', ''8080'', ''application/ogg'',
      ''videotestsrc'', ''!'', ''theoraenc'', ''!'', ''oggmux'']"

section \<open>The pipeline object: what one call does\<close>

lemma state_changes_append: "state_changes (xs @ ys) = state_changes xs @ state_changes ys"
  by (induction xs rule: state_changes.induct) simp_all

lemma closes_append: "closes (xs @ ys) = closes xs @ closes ys"
  by (induction xs rule: closes.induct) simp_all

lemma posts_append: "posts (xs @ ys) = posts xs @ posts ys"
  by (induction xs rule: posts.induct) simp_all

lemmas pipeline_defs = write_cerr_def called_def gst_element_set_state_def
  gst_element_post_message_def play_def emit_add_def

lemma removed_no_state_change:
  "state_changes (calls (on_client_socket_removed p_socket s)) = state_changes (calls s)"
  "pipeline_state (on_client_socket_removed p_socket s) = pipeline_state s"
  by (simp_all add: on_client_socket_removed_def pipeline_defs Let_def state_changes_append
        split: option.split)

lemma removed_last_posts:
  assumes "length (m_clients s) = 1" "m_clients (on_client_socket_removed p_socket s) = []"
  shows "bus (on_client_socket_removed p_socket s) = bus s @ [GST_MESSAGE_ELEMENT ''StopPipeline'']"
    and "posts (calls (on_client_socket_removed p_socket s)) =
           posts (calls s) @ [GST_MESSAGE_ELEMENT ''StopPipeline'']"
  using assms
  by (auto simp add: on_client_socket_removed_def pipeline_defs Let_def posts_append
        split: option.splits if_splits)

lemma removed_nonempty_no_post:
  assumes "m_clients (on_client_socket_removed p_socket s) \<noteq> []"
  shows "bus (on_client_socket_removed p_socket s) = bus s"
    and "posts (calls (on_client_socket_removed p_socket s)) = posts (calls s)"
  using assms
  by (auto simp add: on_client_socket_removed_def pipeline_defs Let_def posts_append
        split: option.splits if_splits)

lemma stop_message_plays:
  "bus_watch ok (GST_MESSAGE_ELEMENT ''StopPipeline'') s = play ok False s"
  "state_changes (calls (object_of (play ok False s))) =
     state_changes (calls s) @ [(GST_STATE_READY, ok)]"
  by (simp_all add: pipeline_defs Let_def state_changes_append)

lemma add_client_calls:
  "calls (object_of (add_client ok p_stream p_socket s)) =
     calls s @ Emit_add p_socket #
       (if length (AList.update p_socket p_stream (m_clients s)) = 1
        then [Set_state GST_STATE_PLAYING ok] else [])"
  by (simp add: add_client_def pipeline_defs Let_def)

lemma add_client_clients:
  "m_clients (object_of (add_client ok p_stream p_socket s)) =
     AList.update p_socket p_stream (m_clients s)"
  by (simp add: add_client_def pipeline_defs Let_def)

lemma add_client_bus: "bus (object_of (add_client ok p_stream p_socket s)) = bus s"
  by (simp add: add_client_def pipeline_defs Let_def)

lemma update_not_Nil: "AList.update k v al \<noteq> []"
  by (cases al) auto

lemma length_update:
  "length (AList.update k v al) = (if k \<in> fst ` set al then length al else Suc (length al))"
  by (induction al) auto

lemma fresh_fields:
  "m_clients fresh = []" "sink_sockets fresh = []" "pipeline_state fresh = GST_STATE_READY"
  "bus fresh = []" "calls fresh = [Set_state GST_STATE_READY True]"
  by (simp_all add: fresh_def constructed_def)

lemma one_client_fields:
  "m_clients one_client = [(1, 10)]" "sink_sockets one_client = [1]"
  "pipeline_state one_client = GST_STATE_PLAYING" "bus one_client = []"
  "calls one_client =
     [Set_state GST_STATE_READY True, Emit_add 1, Set_state GST_STATE_PLAYING True]"
  by (simp_all add: one_client_def fresh_fields add_client_def pipeline_defs Let_def)

lemma two_clients_fields:
  "m_clients two_clients = [(1, 10), (2, 20)]" "sink_sockets two_clients = [1, 2]"
  "pipeline_state two_clients = GST_STATE_PLAYING" "bus two_clients = []"
  "calls two_clients =
     [Set_state GST_STATE_READY True, Emit_add 1, Set_state GST_STATE_PLAYING True, Emit_add 2]"
  by (simp_all add: two_clients_def one_client_fields add_client_def pipeline_defs Let_def)

lemma paired_fresh: "paired fresh"
  by (simp add: paired_def fresh_fields)

lemma paired_two_clients: "paired two_clients"
  by (simp add: paired_def two_clients_fields)

text \<open>
  C3. The claim: registering a key that is already present fails as a no-op, the existing
  entry's connection stays and the size does not change. The code has no such check:
  \<open>m_clients[p_socket] = p_stream\<close> overwrites. With socket 1 registered for stream 10,
  registering socket 1 for stream 30 leaves the registry mapping socket 1 to stream 30; the
  socket is handed to the sink again and the pipeline is asked to play again.
\<close>

theorem add_client_present_key_not_a_noop:
  "map_of (m_clients one_client) 1 = Some 10 \<and>
   map_of (m_clients (object_of (add_client True 30 1 one_client))) 1 = Some 30 \<and>
   calls (object_of (add_client True 30 1 one_client)) =
     calls one_client @ [Emit_add 1, Set_state GST_STATE_PLAYING True]"
  by (simp add: add_client_clients add_client_calls one_client_fields)

text \<open>
  C3 as the code has it: for every object and every \<open>add_client\<close> with a socket the
  registry already holds, the size of the registry does not change and every other entry
  stays, but the socket's entry now holds the new stream, the sink's \<open>add\<close> is emitted
  again, and \<open>play(true)\<close> is called again when the registry holds one client.
\<close>

theorem add_client_present_key_overwrites:
  assumes "map_of (m_clients s) p_socket = Some old_stream"
  shows "length (m_clients (object_of (add_client ok p_stream p_socket s))) = length (m_clients s) \<and>
         map_of (m_clients (object_of (add_client ok p_stream p_socket s))) p_socket = Some p_stream \<and>
         (\<forall>k. k \<noteq> p_socket \<longrightarrow>
            map_of (m_clients (object_of (add_client ok p_stream p_socket s))) k =
            map_of (m_clients s) k) \<and>
         calls (object_of (add_client ok p_stream p_socket s)) =
           calls s @ Emit_add p_socket #
             (if length (m_clients s) = 1 then [Set_state GST_STATE_PLAYING ok] else [])"
proof -
  have "p_socket \<in> fst ` set (m_clients s)"
    using assms by (metis map_of_eq_None_iff option.distinct(1))
  then have len: "length (AList.update p_socket p_stream (m_clients s)) = length (m_clients s)"
    by (simp add: length_update)
  show ?thesis
    by (simp add: add_client_clients add_client_calls len update_conv')
qed

theorem add_client_present_key_overwrites_witness:
  "map_of (m_clients one_client) 1 = Some 10 \<and>
   length (m_clients (object_of (add_client True 30 1 one_client))) = 1 \<and>
   map_of (m_clients (object_of (add_client True 30 1 one_client))) 1 = Some 30 \<and>
   map_of (m_clients (object_of (add_client True 30 1 one_client))) 2 = None \<and>
   calls (object_of (add_client True 30 1 one_client)) =
     [Set_state GST_STATE_READY True, Emit_add 1, Set_state GST_STATE_PLAYING True,
      Emit_add 1, Set_state GST_STATE_PLAYING True]"
  using add_client_present_key_overwrites [of one_client 1 10 True 30]
  by (simp add: one_client_fields)

text \<open>
  C4. For every object and every socket, \<open>on_client_socket_removed\<close> asks for no state
  change and leaves the pipeline's state as it is. When it takes the registry from one
  client to none it posts the \<open>StopPipeline\<close> message and nothing else; when clients
  remain it posts nothing. \<open>bus_watch\<close> on that message is \<open>play(false)\<close>: the change to
  READY is asked for there, and when the message is the only one waiting, the main loop's
  next dispatch is that call.
\<close>

theorem last_removal_posts_stop_request:
  "state_changes (calls (on_client_socket_removed p_socket s)) = state_changes (calls s) \<and>
   pipeline_state (on_client_socket_removed p_socket s) = pipeline_state s \<and>
   (length (m_clients s) = 1 \<and> m_clients (on_client_socket_removed p_socket s) = [] \<longrightarrow>
      bus (on_client_socket_removed p_socket s) = bus s @ [GST_MESSAGE_ELEMENT ''StopPipeline''] \<and>
      posts (calls (on_client_socket_removed p_socket s)) =
        posts (calls s) @ [GST_MESSAGE_ELEMENT ''StopPipeline''] \<and>
      (bus s = [] \<longrightarrow>
         step (Bus_dispatch ok) (on_client_socket_removed p_socket s) =
           play ok False ((on_client_socket_removed p_socket s)\<lparr>bus := []\<rparr>))) \<and>
   (m_clients (on_client_socket_removed p_socket s) \<noteq> [] \<longrightarrow>
      bus (on_client_socket_removed p_socket s) = bus s \<and>
      posts (calls (on_client_socket_removed p_socket s)) = posts (calls s)) \<and>
   bus_watch ok (GST_MESSAGE_ELEMENT ''StopPipeline'') s = play ok False s \<and>
   state_changes (calls (object_of (bus_watch ok (GST_MESSAGE_ELEMENT ''StopPipeline'') s))) =
     state_changes (calls s) @ [(GST_STATE_READY, ok)]"
  using removed_no_state_change [of p_socket s] removed_last_posts [of s p_socket]
    removed_nonempty_no_post [of p_socket s] stop_message_plays [of ok s]
  by simp

theorem last_removal_posts_stop_request_witness:
  "length (m_clients one_client) = 1 \<and> bus one_client = [] \<and>
   m_clients (on_client_socket_removed 1 one_client) = [] \<and>
   state_changes (calls (on_client_socket_removed 1 one_client)) = state_changes (calls one_client) \<and>
   pipeline_state (on_client_socket_removed 1 one_client) = GST_STATE_PLAYING \<and>
   bus (on_client_socket_removed 1 one_client) = [GST_MESSAGE_ELEMENT ''StopPipeline''] \<and>
   step (Bus_dispatch True) (on_client_socket_removed 1 one_client) =
     play True False ((on_client_socket_removed 1 one_client)\<lparr>bus := []\<rparr>) \<and>
   m_clients (on_client_socket_removed 1 two_clients) = [(2, 20)] \<and>
   bus (on_client_socket_removed 1 two_clients) = []"
  using last_removal_posts_stop_request [of 1 one_client True]
    last_removal_posts_stop_request [of 1 two_clients True]
  by (simp add: one_client_fields two_clients_fields on_client_socket_removed_def
        pipeline_defs Let_def)

text \<open>
  C5. The claim: \<open>play(true)\<close> is invoked exactly when a registration takes the registry
  from 0 to 1 clients, and never otherwise. The code tests \<open>m_clients.size() == 1\<close> after
  the insertion, so registering again the one socket the registry holds asks for PLAYING a
  second time, with the registry going from 1 client to 1 client.
\<close>

theorem play_true_without_first_client:
  "length (m_clients one_client) = 1 \<and>
   length (m_clients (object_of (add_client True 30 1 one_client))) = 1 \<and>
   state_changes (calls (object_of (add_client True 30 1 one_client))) =
     state_changes (calls one_client) @ [(GST_STATE_PLAYING, True)]"
  by (simp add: add_client_clients add_client_calls one_client_fields)

text \<open>
  C5 as the code has it: \<open>add_client\<close> asks for PLAYING once when the registry holds one
  client after the insertion, and for nothing otherwise; for a socket the registry does
  not hold yet, that is exactly when the registry was empty, and the registry grows by
  one. \<open>on_client_socket_removed\<close> asks for no state change, whichever client leaves.
\<close>

theorem play_true_exactly_on_first_client:
  "state_changes (calls (object_of (add_client ok p_stream p_socket s))) =
     state_changes (calls s) @
       (if length (m_clients (object_of (add_client ok p_stream p_socket s))) = 1
        then [(GST_STATE_PLAYING, ok)] else []) \<and>
   (p_socket \<notin> fst ` set (m_clients s) \<longrightarrow>
      length (m_clients (object_of (add_client ok p_stream p_socket s))) =
        Suc (length (m_clients s)) \<and>
      state_changes (calls (object_of (add_client ok p_stream p_socket s))) =
        state_changes (calls s) @ (if m_clients s = [] then [(GST_STATE_PLAYING, ok)] else [])) \<and>
   state_changes (calls (on_client_socket_removed q_socket s)) = state_changes (calls s)"
  by (simp add: add_client_clients add_client_calls length_update state_changes_append
        removed_no_state_change)

theorem play_true_exactly_on_first_client_witness:
  "1 \<notin> fst ` set (m_clients fresh) \<and> 2 \<notin> fst ` set (m_clients one_client) \<and>
   state_changes (calls one_client) = state_changes (calls fresh) @ [(GST_STATE_PLAYING, True)] \<and>
   state_changes (calls two_clients) = state_changes (calls one_client) \<and>
   state_changes (calls (on_client_socket_removed 1 two_clients)) =
     state_changes (calls two_clients) \<and>
   state_changes (calls (object_of (run come_and_go fresh))) =
     [(GST_STATE_READY, True), (GST_STATE_PLAYING, True)] \<and>
   bus (object_of (run come_and_go fresh)) = [GST_MESSAGE_ELEMENT ''StopPipeline'']"
proof -
  have fresh_keys: "1 \<notin> fst ` set (m_clients fresh)" "2 \<notin> fst ` set (m_clients one_client)"
    by (simp_all add: fresh_fields one_client_fields)
  have first: "state_changes (calls one_client) =
      state_changes (calls fresh) @ [(GST_STATE_PLAYING, True)]"
    using play_true_exactly_on_first_client [of True 10 1 fresh 1] fresh_keys(1)
    by (simp add: one_client_def fresh_fields)
  have second: "state_changes (calls two_clients) = state_changes (calls one_client)"
    using play_true_exactly_on_first_client [of True 20 2 one_client 1] fresh_keys(2)
    by (simp add: two_clients_def one_client_fields)
  have leaving: "state_changes (calls (on_client_socket_removed 1 two_clients)) =
      state_changes (calls two_clients)"
    using play_true_exactly_on_first_client [of True 20 2 two_clients 1] by simp
  have run: "run come_and_go fresh = Inr (sink_remove 2 (sink_remove 1 two_clients))"
    by (simp add: come_and_go_def two_clients_def one_client_def add_client_def
          fresh_def constructed_def pipeline_defs Let_def)
  have "state_changes (calls (sink_remove 2 (sink_remove 1 two_clients))) =
      [(GST_STATE_READY, True), (GST_STATE_PLAYING, True)]"
    "bus (sink_remove 2 (sink_remove 1 two_clients)) = [GST_MESSAGE_ELEMENT ''StopPipeline'']"
    by (simp_all add: two_clients_fields sink_remove_def on_client_socket_removed_def
          pipeline_defs Let_def)
  then have after: "state_changes (calls (object_of (run come_and_go fresh))) =
      [(GST_STATE_READY, True), (GST_STATE_PLAYING, True)]"
    "bus (object_of (run come_and_go fresh)) = [GST_MESSAGE_ELEMENT ''StopPipeline'']"
    unfolding run by simp_all
  from fresh_keys first second leaving after show ?thesis by blast
qed

text \<open>
  C9. For every object and every \<open>add_client\<close> call there is a state \<open>st\<close>, the object
  after the insertion and the sink's \<open>add\<close>, such that the call is \<open>play(true)\<close> on
  \<open>st\<close> when \<open>st\<close> holds one client and returns \<open>st\<close> otherwise. In \<open>st\<close> the socket is
  registered for the new stream and the sink holds it; up to \<open>st\<close> the only call made is
  the \<open>add\<close> and no state change has been asked for; and when registry and sink held the
  same sockets before, they do in \<open>st\<close>.
\<close>

theorem client_registered_before_play:
  "\<exists>st. (add_client ok p_stream p_socket s =
           (if length (m_clients st) = 1 then play ok True st else Inr st)) \<and>
        map_of (m_clients st) p_socket = Some p_stream \<and>
        p_socket \<in> set (sink_sockets st) \<and>
        calls st = calls s @ [Emit_add p_socket] \<and>
        state_changes (calls st) = state_changes (calls s) \<and>
        (paired s \<longrightarrow> paired st)"
proof -
  let ?s3 = "write_cerr [Str ''Adding socket '', Hex p_socket, Str ''\<newline>'']
       (emit_add p_socket (s\<lparr>m_clients := AList.update p_socket p_stream (m_clients s)\<rparr>))"
  let ?st = "if length (m_clients ?s3) = 1
     then write_cerr [Str ''A client just connected, and pipeline isn't running yet - setting pipeline state to PLAYING\<newline>''] ?s3
     else ?s3"
  have "add_client ok p_stream p_socket s =
          (if length (m_clients ?st) = 1 then play ok True ?st else Inr ?st)"
    by (simp add: add_client_def Let_def write_cerr_def)
  moreover have "map_of (m_clients ?st) p_socket = Some p_stream"
    by (simp add: pipeline_defs update_conv')
  moreover have "p_socket \<in> set (sink_sockets ?st)"
    by (simp add: pipeline_defs)
  moreover have "calls ?st = calls s @ [Emit_add p_socket]"
    by (simp add: pipeline_defs)
  moreover have "state_changes (calls ?st) = state_changes (calls s)"
    by (simp add: pipeline_defs state_changes_append)
  moreover have "paired s \<longrightarrow> paired ?st"
    by (auto simp add: pipeline_defs paired_def distinct_update dom_update)
  ultimately show ?thesis by blast
qed

theorem client_registered_before_play_witness:
  "paired fresh \<and>
   (\<exists>st. add_client True 10 1 fresh =
           (if length (m_clients st) = 1 then play True True st else Inr st) \<and>
         map_of (m_clients st) 1 = Some 10 \<and> 1 \<in> set (sink_sockets st) \<and>
         calls st = calls fresh @ [Emit_add 1] \<and> paired st) \<and>
   calls (object_of (add_client True 10 1 fresh)) =
     [Set_state GST_STATE_READY True, Emit_add 1, Set_state GST_STATE_PLAYING True]"
proof -
  have "calls (object_of (add_client True 10 1 fresh)) =
     [Set_state GST_STATE_READY True, Emit_add 1, Set_state GST_STATE_PLAYING True]"
    by (simp add: add_client_calls fresh_fields)
  then show ?thesis
    using client_registered_before_play [of True 10 1 fresh] paired_fresh by blast
qed

section \<open>The sink's clear: every client closed, the registry emptied\<close>

lemma delete_filter: "AList.delete k al = filter (\<lambda>p. fst p \<noteq> k) al"
  by (induction al) (auto simp: AList.delete_eq)

lemma sink_remove_clients:
  "m_clients (sink_remove x s) = (if x \<in> set (sink_sockets s) then AList.delete x (m_clients s) else m_clients s)"
  by (auto simp add: sink_remove_def on_client_socket_removed_def pipeline_defs Let_def
        AList.delete_notin_dom map_of_eq_None_iff AList.delete_id split: option.splits)

lemma sink_remove_sink:
  "sink_sockets (sink_remove x s) = removeAll x (sink_sockets s)"
  by (auto simp add: sink_remove_def on_client_socket_removed_def pipeline_defs Let_def
         split: option.splits)

lemma sink_remove_state:
  "pipeline_state (sink_remove x s) = pipeline_state s"
  "state_changes (calls (sink_remove x s)) = state_changes (calls s)"
  by (auto simp add: sink_remove_def removed_no_state_change)

lemma sink_remove_closes:
  "closes (calls (sink_remove x s)) =
     closes (calls s) @ (if x \<in> set (sink_sockets s) then stream_at (m_clients s) x else [])"
  by (auto simp add: sink_remove_def on_client_socket_removed_def pipeline_defs Let_def
         closes_append stream_at_def split: option.splits)

lemma fold_sink_remove:
  "distinct xs \<Longrightarrow> set xs \<subseteq> set (sink_sockets s) \<Longrightarrow>
     m_clients (fold sink_remove xs s) = filter (\<lambda>p. fst p \<notin> set xs) (m_clients s) \<and>
     sink_sockets (fold sink_remove xs s) = filter (\<lambda>k. k \<notin> set xs) (sink_sockets s) \<and>
     closes (calls (fold sink_remove xs s)) = closes (calls s) @ concat (map (stream_at (m_clients s)) xs) \<and>
     pipeline_state (fold sink_remove xs s) = pipeline_state s \<and>
     state_changes (calls (fold sink_remove xs s)) = state_changes (calls s)"
proof (induction xs arbitrary: s)
  case Nil
  then show ?case by simp
next
  case (Cons x xs)
  let ?s1 = "sink_remove x s"
  have x: "x \<in> set (sink_sockets s)" "x \<notin> set xs" "distinct xs" using Cons.prems by auto
  have sub: "set xs \<subseteq> set (sink_sockets ?s1)"
    using Cons.prems by (auto simp: sink_remove_sink)
  note IH = Cons.IH [OF x(3) sub]
  have same: "map (stream_at (filter (\<lambda>p. fst p \<noteq> x) (m_clients s))) xs = map (stream_at (m_clients s)) xs"
    using x by (auto simp: stream_at_def delete_conv' simp flip: delete_filter)
  have f2: "filter (\<lambda>xa. x \<noteq> xa \<and> xa \<notin> set xs) (sink_sockets s) =
            filter (\<lambda>xa. xa \<noteq> x \<and> xa \<notin> set xs) (sink_sockets s)"
    by (rule filter_cong) auto
  show ?case
    using IH x
    by (simp add: same f2 sink_remove_sink sink_remove_state sink_remove_closes sink_remove_clients
          delete_filter removeAll_filter_not_eq)
qed

lemma stream_at_member:
  "distinct (map fst al) \<Longrightarrow> p \<in> set al \<Longrightarrow> stream_at al (fst p) = [snd p]"
  by (cases p) (simp add: stream_at_def)

lemma concat_stream_at_self:
  assumes "distinct (map fst al)"
  shows "concat (map (\<lambda>p. stream_at al (fst p)) al) = map snd al"
proof -
  have "map (\<lambda>p. stream_at al (fst p)) al = map (\<lambda>p. [snd p]) al"
    by (rule map_cong [OF refl]) (simp add: stream_at_member [OF assms])
  then show ?thesis by (simp only: concat_map_singleton)
qed

lemma mset_concat_perm:
  assumes "mset xs = mset ys"
  shows "mset (concat (map f xs)) = mset (concat (map f ys))"
proof -
  have "mset (concat (map f zs)) = sum_mset (image_mset (\<lambda>z. mset (f z)) (mset zs))" for zs
    by (induction zs) simp_all
  then show ?thesis using assms by simp
qed

lemma closes_of_all:
  assumes "distinct (map fst al)" "distinct xs" "set xs = set (map fst al)"
  shows "mset (concat (map (stream_at al) xs)) = mset (map snd al)"
proof -
  have "mset xs = mset (map fst al)"
    using assms by (subst set_eq_iff_mset_eq_distinct [symmetric]) simp_all
  then have "mset (concat (map (stream_at al) xs)) = mset (concat (map (stream_at al) (map fst al)))"
    by (rule mset_concat_perm)
  also have "concat (map (stream_at al) (map fst al)) = map snd al"
    using concat_stream_at_self [OF assms(1)] by (simp add: comp_def)
  finally show ?thesis .
qed

lemma emit_clear_effect:
  assumes "paired s"
  shows "m_clients (emit_clear s) = []"
    and "sink_sockets (emit_clear s) = []"
    and "mset (closes (calls (emit_clear s))) = mset (closes (calls s)) + mset (map snd (m_clients s))"
    and "pipeline_state (emit_clear s) = pipeline_state s"
proof -
  let ?s0 = "called Emit_clear s"
  have d: "distinct (sink_sockets s)" "set (sink_sockets s) \<subseteq> set (sink_sockets ?s0)"
    using assms by (simp_all add: paired_def called_def)
  note F = fold_sink_remove [OF d]
  have keys: "set (sink_sockets s) = fst ` set (m_clients s)"
    using assms by (simp add: paired_def)
  show "m_clients (emit_clear s) = []"
    using F keys by (simp add: emit_clear_def called_def filter_empty_conv)
  show "sink_sockets (emit_clear s) = []"
    using F by (simp add: emit_clear_def called_def filter_empty_conv)
  show "pipeline_state (emit_clear s) = pipeline_state s"
    using F by (simp add: emit_clear_def called_def)
  have "closes (calls (emit_clear s)) = closes (calls s) @ concat (map (stream_at (m_clients s)) (sink_sockets s))"
    using F by (simp add: emit_clear_def called_def closes_append)
  moreover have "mset (concat (map (stream_at (m_clients s)) (sink_sockets s))) = mset (map snd (m_clients s))"
    using assms by (intro closes_of_all) (simp_all add: paired_def)
  ultimately show "mset (closes (calls (emit_clear s))) = mset (closes (calls s)) + mset (map snd (m_clients s))"
    by simp
qed

lemma sink_remove_calls:
  "\<exists>rest. calls (sink_remove x s) = calls s @ rest \<and>
     (\<forall>c\<in>set rest. (\<exists>stream. c = Io_stream_close stream) \<or>
                     c = Post_message (GST_MESSAGE_ELEMENT ''StopPipeline''))"
  by (auto simp add: sink_remove_def on_client_socket_removed_def pipeline_defs Let_def
         split: option.splits)

lemma fold_sink_remove_calls:
  "\<exists>rest. calls (fold sink_remove xs s) = calls s @ rest \<and>
     (\<forall>c\<in>set rest. (\<exists>stream. c = Io_stream_close stream) \<or>
                     c = Post_message (GST_MESSAGE_ELEMENT ''StopPipeline''))"
proof (induction xs arbitrary: s)
  case Nil
  then show ?case by simp
next
  case (Cons x xs)
  obtain r1 where r1: "calls (sink_remove x s) = calls s @ r1"
    "\<forall>c\<in>set r1. (\<exists>stream. c = Io_stream_close stream) \<or> c = Post_message (GST_MESSAGE_ELEMENT ''StopPipeline'')"
    using sink_remove_calls by blast
  obtain r2 where r2: "calls (fold sink_remove xs (sink_remove x s)) = calls (sink_remove x s) @ r2"
    "\<forall>c\<in>set r2. (\<exists>stream. c = Io_stream_close stream) \<or> c = Post_message (GST_MESSAGE_ELEMENT ''StopPipeline'')"
    using Cons.IH by blast
  have "calls (fold sink_remove (x # xs) s) = calls s @ (r1 @ r2)"
    using r1 r2 by simp
  moreover have "\<forall>c\<in>set (r1 @ r2). (\<exists>stream. c = Io_stream_close stream) \<or> c = Post_message (GST_MESSAGE_ELEMENT ''StopPipeline'')"
    using r1 r2 by auto
  ultimately show ?case by blast
qed

text \<open>
  C6. The claim: after an end of stream or an error is processed, the registry is empty
  and every registered connection has been closed once. \<open>bus_watch\<close> calls
  \<open>play(false)\<close> before the sink's \<open>clear\<close>, and \<open>play(false)\<close> throws when the engine
  refuses the change to READY. With two clients registered and the change refused, on an
  end of stream as on an error, the handler ends with the exception, both clients are
  still registered and no stream has been closed.
\<close>

theorem refused_stop_leaves_clients_registered:
  "paired two_clients \<and>
   bus_watch False GST_MESSAGE_EOS two_clients =
     Inl (''failed to set pipeline state'', object_of (bus_watch False GST_MESSAGE_EOS two_clients)) \<and>
   m_clients (object_of (bus_watch False GST_MESSAGE_EOS two_clients)) = [(1, 10), (2, 20)] \<and>
   closes (calls (object_of (bus_watch False GST_MESSAGE_EOS two_clients))) = [] \<and>
   bus_watch False (GST_MESSAGE_ERROR ''error'' ''debug'') two_clients =
     Inl (''failed to set pipeline state'',
          object_of (bus_watch False (GST_MESSAGE_ERROR ''error'' ''debug'') two_clients)) \<and>
   m_clients (object_of (bus_watch False (GST_MESSAGE_ERROR ''error'' ''debug'') two_clients)) =
     [(1, 10), (2, 20)] \<and>
   closes (calls (object_of (bus_watch False (GST_MESSAGE_ERROR ''error'' ''debug'') two_clients))) = []"
  using paired_two_clients
  by (simp add: pipeline_defs Let_def two_clients_fields closes_append)

text \<open>
  C6 as the code has it. Let registry and sink hold the same sockets, each once (as they
  do in every state a run reaches), and let the message be an end of stream or an error.
  When the engine accepts the change to READY, \<open>bus_watch\<close> returns with the registry and
  the sink empty, and the streams closed by the call are, counted with multiplicity, the
  streams the registry held: one \<open>g_io_stream_close\<close> for each entry, none else. When the
  engine refuses the change, \<open>bus_watch\<close> throws with the registry and the sink as they
  were and no stream closed.
\<close>

theorem accepted_fatal_event_closes_every_client_once:
  assumes "paired s" and "m = GST_MESSAGE_EOS \<or> m = GST_MESSAGE_ERROR message debug_info"
  shows "(\<exists>s'. bus_watch True m s = Inr s' \<and> m_clients s' = [] \<and> sink_sockets s' = [] \<and>
            mset (closes (calls s')) = mset (closes (calls s)) + mset (map snd (m_clients s))) \<and>
         (\<exists>s'. bus_watch False m s = Inl (''failed to set pipeline state'', s') \<and>
            m_clients s' = m_clients s \<and> sink_sockets s' = sink_sockets s \<and>
            closes (calls s') = closes (calls s))"
proof -
  have accepted: "\<exists>s'. (case play True False s0 of Inl e \<Rightarrow> Inl e | Inr s1 \<Rightarrow> Inr (emit_clear s1)) = Inr s' \<and>
           m_clients s' = [] \<and> sink_sockets s' = [] \<and>
           mset (closes (calls s')) = mset (closes (calls s)) + mset (map snd (m_clients s))"
    and refused: "\<exists>s'. (case play False False s0 of Inl e \<Rightarrow> Inl e | Inr s1 \<Rightarrow> Inr (emit_clear s1)) =
             Inl (''failed to set pipeline state'', s') \<and>
           m_clients s' = m_clients s \<and> sink_sockets s' = sink_sockets s \<and>
           closes (calls s') = closes (calls s)"
    if a: "paired s0" "m_clients s0 = m_clients s" "sink_sockets s0 = sink_sockets s"
      "closes (calls s0) = closes (calls s)"
    for s0
  proof -
    let ?s1 = "gst_element_set_state True GST_STATE_READY s0"
    have p: "paired ?s1" using a(1) by (simp add: paired_def pipeline_defs)
    have c: "m_clients ?s1 = m_clients s" "closes (calls ?s1) = closes (calls s)"
      using a by (simp_all add: pipeline_defs closes_append)
    show "\<exists>s'. (case play True False s0 of Inl e \<Rightarrow> Inl e | Inr s1 \<Rightarrow> Inr (emit_clear s1)) = Inr s' \<and>
           m_clients s' = [] \<and> sink_sockets s' = [] \<and>
           mset (closes (calls s')) = mset (closes (calls s)) + mset (map snd (m_clients s))"
      using emit_clear_effect [OF p] c by (simp add: play_def Let_def)
    show "\<exists>s'. (case play False False s0 of Inl e \<Rightarrow> Inl e | Inr s1 \<Rightarrow> Inr (emit_clear s1)) =
             Inl (''failed to set pipeline state'', s') \<and>
           m_clients s' = m_clients s \<and> sink_sockets s' = sink_sockets s \<and>
           closes (calls s') = closes (calls s)"
      using a by (simp add: pipeline_defs Let_def closes_append)
  qed
  from assms(2) show ?thesis
  proof
    assume m: "m = GST_MESSAGE_EOS"
    let ?s0 = "write_cerr [Str ''EOS received - halting pipeline\<newline>''] s"
    have s0: "paired ?s0" "m_clients ?s0 = m_clients s" "sink_sockets ?s0 = sink_sockets s"
      "closes (calls ?s0) = closes (calls s)"
      using assms(1) by (simp_all add: paired_def write_cerr_def)
    show ?thesis using accepted [OF s0] refused [OF s0] by (simp add: m)
  next
    assume m: "m = GST_MESSAGE_ERROR message debug_info"
    let ?s0 = "write_cerr [Str ''Stopping pipeline due to error\<newline>'']
                 (called (Dot_file ''error'')
                    (write_cerr [Str ''ERROR: '', Str message, Str ''; debug info: '',
                                 Str debug_info, Str ''\<newline>''] s))"
    have s0: "paired ?s0" "m_clients ?s0 = m_clients s" "sink_sockets ?s0 = sink_sockets s"
      "closes (calls ?s0) = closes (calls s)"
      using assms(1) by (simp_all add: paired_def write_cerr_def called_def closes_append)
    show ?thesis using accepted [OF s0] refused [OF s0] by (simp add: m Let_def)
  qed
qed

lemma eos_two_clients:
  "calls (object_of (bus_watch True GST_MESSAGE_EOS two_clients)) = calls two_clients @
     [Set_state GST_STATE_READY True, Emit_clear, Io_stream_close 10, Io_stream_close 20,
      Post_message (GST_MESSAGE_ELEMENT ''StopPipeline'')]"
  by (simp add: two_clients_fields emit_clear_def sink_remove_def on_client_socket_removed_def
      pipeline_defs Let_def)

theorem accepted_fatal_event_closes_every_client_once_witness:
  "paired two_clients \<and>
   bus_watch True GST_MESSAGE_EOS two_clients =
     Inr (object_of (bus_watch True GST_MESSAGE_EOS two_clients)) \<and>
   m_clients (object_of (bus_watch True GST_MESSAGE_EOS two_clients)) = [] \<and>
   sink_sockets (object_of (bus_watch True GST_MESSAGE_EOS two_clients)) = [] \<and>
   map snd (m_clients two_clients) = [10, 20] \<and>
   closes (calls (object_of (bus_watch True GST_MESSAGE_EOS two_clients))) = [10, 20] \<and>
   m_clients (object_of (bus_watch False GST_MESSAGE_EOS two_clients)) = m_clients two_clients \<and>
   closes (calls (object_of (bus_watch False GST_MESSAGE_EOS two_clients))) =
     closes (calls two_clients)"
proof -
  note T = accepted_fatal_event_closes_every_client_once
    [OF paired_two_clients, of GST_MESSAGE_EOS]
  obtain s' where s': "bus_watch True GST_MESSAGE_EOS two_clients = Inr s'"
    "m_clients s' = []" "sink_sockets s' = []"
    using T by blast
  obtain s'' where s'':
    "bus_watch False GST_MESSAGE_EOS two_clients = Inl (''failed to set pipeline state'', s'')"
    "m_clients s'' = m_clients two_clients" "closes (calls s'') = closes (calls two_clients)"
    using T by blast
  have "closes (calls (object_of (bus_watch True GST_MESSAGE_EOS two_clients))) = [10, 20]"
    unfolding eos_two_clients by (simp add: two_clients_fields)
  then show ?thesis
    using s' s'' paired_two_clients by (simp add: two_clients_fields)
qed

text \<open>
  C7. The claim: on an end of stream the handler invokes \<open>play(false)\<close> and then clears
  the sink, which closes every remaining client connection. The clear follows only a
  \<open>play(false)\<close> that returns. With two clients registered and the change to READY
  refused, the refused change is the last call the handler makes: the sink still holds
  both sockets and no stream has been closed.
\<close>

theorem refused_stop_is_followed_by_no_clear:
  "paired two_clients \<and>
   calls (object_of (bus_watch False GST_MESSAGE_EOS two_clients)) =
     calls two_clients @ [Set_state GST_STATE_READY False] \<and>
   sink_sockets (object_of (bus_watch False GST_MESSAGE_EOS two_clients)) = [1, 2] \<and>
   closes (calls (object_of (bus_watch False GST_MESSAGE_EOS two_clients))) = []"
  using paired_two_clients
  by (simp add: pipeline_defs Let_def two_clients_fields closes_append)

text \<open>
  C7 as the code has it. Let registry and sink hold the same sockets, each once. On an end
  of stream, when the engine accepts the change, \<open>bus_watch\<close> returns, and the calls it
  makes are, in this order: the change to READY (\<open>play(false)\<close>), the sink's \<open>clear\<close>,
  and then nothing but \<open>g_io_stream_close\<close> calls and the post of the stop request, the
  closed streams being the streams the registry held. When the engine refuses the change,
  \<open>play(false)\<close> throws and that refused change is the only call made: no \<open>clear\<close> and
  no close follows.
\<close>

theorem end_of_stream_stops_then_clears:
  assumes "paired s"
  shows "(\<exists>s' rest. bus_watch True GST_MESSAGE_EOS s = Inr s' \<and>
            calls s' = calls s @ Set_state GST_STATE_READY True # Emit_clear # rest \<and>
            (\<forall>c\<in>set rest. (\<exists>stream. c = Io_stream_close stream) \<or>
                            c = Post_message (GST_MESSAGE_ELEMENT ''StopPipeline'')) \<and>
            mset (closes rest) = mset (map snd (m_clients s))) \<and>
         (\<exists>s'. bus_watch False GST_MESSAGE_EOS s = Inl (''failed to set pipeline state'', s') \<and>
            calls s' = calls s @ [Set_state GST_STATE_READY False])"
proof -
  let ?s0 = "write_cerr [Str ''EOS received - halting pipeline\<newline>''] s"
  let ?s1 = "gst_element_set_state True GST_STATE_READY ?s0"
  have bw: "bus_watch True GST_MESSAGE_EOS s = Inr (emit_clear ?s1)"
    by (simp add: play_def Let_def)
  have c1: "calls ?s1 = calls s @ [Set_state GST_STATE_READY True]"
    by (simp add: pipeline_defs)
  obtain rest where rest: "calls (emit_clear ?s1) = calls (called Emit_clear ?s1) @ rest"
    "\<forall>c\<in>set rest. (\<exists>stream. c = Io_stream_close stream) \<or>
                    c = Post_message (GST_MESSAGE_ELEMENT ''StopPipeline'')"
    unfolding emit_clear_def using fold_sink_remove_calls by blast
  have calls: "calls (emit_clear ?s1) =
      calls s @ Set_state GST_STATE_READY True # Emit_clear # rest"
    using rest(1) c1 by (simp add: called_def)
  have p: "paired ?s1" using assms by (simp add: paired_def pipeline_defs)
  have m: "m_clients ?s1 = m_clients s" "closes (calls ?s1) = closes (calls s)"
    by (simp_all add: pipeline_defs closes_append)
  have e: "closes (calls (emit_clear ?s1)) = closes (calls s) @ closes rest"
    by (simp only: calls closes_append closes.simps append_Nil)
  have "mset (closes (calls (emit_clear ?s1))) =
      mset (closes (calls ?s1)) + mset (map snd (m_clients ?s1))"
    by (rule emit_clear_effect(3) [OF p])
  then have "mset (closes rest) = mset (map snd (m_clients s))"
    unfolding e m by simp
  with bw calls rest(2) have first:
    "\<exists>s' rest. bus_watch True GST_MESSAGE_EOS s = Inr s' \<and>
            calls s' = calls s @ Set_state GST_STATE_READY True # Emit_clear # rest \<and>
            (\<forall>c\<in>set rest. (\<exists>stream. c = Io_stream_close stream) \<or>
                            c = Post_message (GST_MESSAGE_ELEMENT ''StopPipeline'')) \<and>
            mset (closes rest) = mset (map snd (m_clients s))"
    by blast
  have second:
    "\<exists>s'. bus_watch False GST_MESSAGE_EOS s = Inl (''failed to set pipeline state'', s') \<and>
            calls s' = calls s @ [Set_state GST_STATE_READY False]"
    by (simp add: pipeline_defs Let_def)
  from first second show ?thesis by blast
qed

theorem end_of_stream_stops_then_clears_witness:
  "paired two_clients \<and>
   (\<exists>s' rest. bus_watch True GST_MESSAGE_EOS two_clients = Inr s' \<and>
      calls s' = calls two_clients @ Set_state GST_STATE_READY True # Emit_clear # rest \<and>
      mset (closes rest) = mset (map snd (m_clients two_clients))) \<and>
   calls (object_of (bus_watch True GST_MESSAGE_EOS two_clients)) =
     calls two_clients @
       [Set_state GST_STATE_READY True, Emit_clear, Io_stream_close 10, Io_stream_close 20,
        Post_message (GST_MESSAGE_ELEMENT ''StopPipeline'')] \<and>
   calls (object_of (bus_watch False GST_MESSAGE_EOS two_clients)) =
     calls two_clients @ [Set_state GST_STATE_READY False]"
proof -
  have refused: "calls (object_of (bus_watch False GST_MESSAGE_EOS two_clients)) =
     calls two_clients @ [Set_state GST_STATE_READY False]"
    by (simp add: pipeline_defs Let_def)
  show ?thesis
    using end_of_stream_stops_then_clears [OF paired_two_clients] paired_two_clients
      eos_two_clients refused
    by blast
qed

section \<open>The runs of the object: which state it is in\<close>

lemma removed_bus:
  "bus (on_client_socket_removed x s) = bus s \<and>
     (m_clients (on_client_socket_removed x s) = [] \<longrightarrow> m_clients s = []) \<or>
   bus (on_client_socket_removed x s) = bus s @ [GST_MESSAGE_ELEMENT ''StopPipeline'']"
  by (auto simp add: on_client_socket_removed_def pipeline_defs Let_def map_of_eq_None_iff
        split: option.splits)

lemma stop_inv_removed:
  assumes "stop_inv s" shows "stop_inv (on_client_socket_removed x s)"
  using assms removed_bus [of x s] removed_no_state_change(2) [of x s]
  by (auto simp add: stop_inv_def settled_def)

lemma stop_inv_sink_field: "stop_inv (s\<lparr>sink_sockets := xs\<rparr>) = stop_inv s"
  by (simp add: stop_inv_def settled_def)

lemma stop_inv_sink_remove:
  assumes "stop_inv s" shows "stop_inv (sink_remove x s)"
  using assms by (simp add: sink_remove_def stop_inv_removed stop_inv_sink_field)

lemma stop_inv_fold:
  "stop_inv s \<Longrightarrow> stop_inv (fold sink_remove xs s)"
  by (induction xs arbitrary: s) (simp_all add: stop_inv_sink_remove)

lemma fold_sink_remove_state:
  "pipeline_state (fold sink_remove xs s) = pipeline_state s"
  by (induction xs arbitrary: s) (simp_all add: sink_remove_state)

lemma stop_inv_ready:
  assumes "\<forall>m\<in>set (bus s). \<not> is_request_state m" "pipeline_state s = GST_STATE_READY"
  shows "stop_inv s"
  using assms by (simp add: stop_inv_def)

lemma stop_inv_stop_and_clear:
  assumes "\<forall>m\<in>set (bus s). \<not> is_request_state m" "play ok False s = Inr s1"
  shows "stop_inv (emit_clear s1)"
proof -
  have "stop_inv (called Emit_clear s1)"
    using assms by (auto simp add: stop_inv_def pipeline_defs Let_def split: if_splits)
  then show ?thesis unfolding emit_clear_def by (rule stop_inv_fold)
qed

lemma stop_inv_bus_watch:
  assumes "stop_inv (s\<lparr>bus := m # ms\<rparr>)" "bus_watch ok m (s\<lparr>bus := ms\<rparr>) = Inr s'"
  shows "stop_inv s'"
proof (cases m)
  case (GST_MESSAGE_STATE_CHANGED b x y z)
  then show ?thesis using assms
    by (auto simp add: stop_inv_def settled_def pipeline_defs split: if_splits)
next
  case (GST_MESSAGE_ELEMENT name)
  then show ?thesis using assms
    by (auto simp add: stop_inv_def settled_def pipeline_defs Let_def split: if_splits)
next
  case GST_MESSAGE_EOS
  have nr: "\<forall>m\<in>set (bus (write_cerr [Str ''EOS received - halting pipeline\<newline>''] (s\<lparr>bus := ms\<rparr>))). \<not> is_request_state m"
    using assms(1) by (simp add: stop_inv_def write_cerr_def)
  show ?thesis using assms(2) GST_MESSAGE_EOS stop_inv_stop_and_clear [OF nr]
    by (auto split: sum.splits)
next
  case (GST_MESSAGE_INFO x y)
  then show ?thesis using assms
    by (auto simp add: stop_inv_def settled_def pipeline_defs split: if_splits)
next
  case (GST_MESSAGE_WARNING x y)
  then show ?thesis using assms
    by (auto simp add: stop_inv_def settled_def pipeline_defs split: if_splits)
next
  case (GST_MESSAGE_ERROR x y)
  have nr: "\<forall>m\<in>set (bus (write_cerr [Str ''Stopping pipeline due to error\<newline>'']
                    (called (Dot_file ''error'')
                      (write_cerr [Str ''ERROR: '', Str x, Str ''; debug info: '', Str y, Str ''\<newline>''] (s\<lparr>bus := ms\<rparr>))))). \<not> is_request_state m"
    using assms(1) by (simp add: stop_inv_def write_cerr_def called_def)
  show ?thesis using assms(2) GST_MESSAGE_ERROR stop_inv_stop_and_clear [OF nr]
    by (auto simp add: Let_def split: sum.splits)
next
  case (GST_MESSAGE_REQUEST_STATE x y)
  then show ?thesis using assms(1) by (simp add: stop_inv_def)
next
  case GST_MESSAGE_LATENCY
  then show ?thesis using assms
    by (auto simp add: stop_inv_def settled_def pipeline_defs split: if_splits)
next
  case GST_MESSAGE_OTHER
  then show ?thesis using assms
    by (auto simp add: stop_inv_def settled_def pipeline_defs split: if_splits)
qed

lemma stop_inv_step:
  assumes "stop_inv s" "step e s = Inr s'" "\<forall>m\<in>set (posted [e]). \<not> is_request_state m"
  shows "stop_inv s'"
proof (cases e)
  case (Wrote_headers ok p_stream p_socket)
  then have "s' = object_of (add_client ok p_stream p_socket s)" using assms(2) by simp
  moreover have "bus (object_of (add_client ok p_stream p_socket s)) = bus s"
    by (simp add: add_client_def pipeline_defs Let_def)
  ultimately show ?thesis using assms(1)
    by (simp add: stop_inv_def add_client_clients update_not_Nil)
next
  case (Sink_removes x)
  then show ?thesis using assms by (auto simp add: stop_inv_sink_remove)
next
  case (Engine_posts m)
  then show ?thesis using assms by (auto simp add: stop_inv_def settled_def)
next
  case (Bus_dispatch ok)
  show ?thesis
  proof (cases "bus s")
    case Nil
    then show ?thesis using assms Bus_dispatch by simp
  next
    case (Cons m ms)
    then have "s = s\<lparr>bus := m # ms\<rparr>" by simp
    then have "stop_inv (s\<lparr>bus := m # ms\<rparr>)" using assms(1) by simp
    moreover have "bus_watch ok m (s\<lparr>bus := ms\<rparr>) = Inr s'"
      using assms(2) Bus_dispatch Cons by simp
    ultimately show ?thesis by (rule stop_inv_bus_watch)
  qed
qed

lemma posted_Cons: "set (posted (e # es)) = set (posted [e]) \<union> set (posted es)"
  by (cases e) simp_all

lemma stop_inv_run:
  "stop_inv s \<Longrightarrow> run es s = Inr s' \<Longrightarrow> \<forall>m\<in>set (posted es). \<not> is_request_state m \<Longrightarrow> stop_inv s'"
proof (induction es arbitrary: s)
  case Nil
  then show ?case by simp
next
  case (Cons e es)
  from Cons.prems(2) obtain s1 where s1: "step e s = Inr s1" "run es s1 = Inr s'"
    by (auto split: sum.splits)
  have p: "\<forall>m\<in>set (posted [e]). \<not> is_request_state m" "\<forall>m\<in>set (posted es). \<not> is_request_state m"
    using Cons.prems(3) posted_Cons [of e es] by auto
  have "stop_inv s1" using Cons.prems(1) s1(1) p(1) by (rule stop_inv_step)
  then show ?case using s1(2) p(2) by (rule Cons.IH)
qed

lemma stop_inv_constructed: "stop_inv (constructed ct)"
  by (simp add: stop_inv_def constructed_def)

lemma paired_fields:
  "m_clients t = m_clients s \<Longrightarrow> sink_sockets t = sink_sockets s \<Longrightarrow> paired t = paired s"
  by (simp add: paired_def)

lemma paired_sink_remove: "paired s \<Longrightarrow> paired (sink_remove x s)"
proof -
  assume p: "paired s"
  have "set (map fst (AList.delete x (m_clients s))) = set (removeAll x (sink_sockets s))"
    using p by (simp add: paired_def delete_keys)
  then show ?thesis
    using p by (simp add: paired_def sink_remove_clients sink_remove_sink distinct_delete
        distinct_removeAll)
qed

lemma paired_fold_sink_remove: "paired s \<Longrightarrow> paired (fold sink_remove xs s)"
  by (induction xs arbitrary: s) (simp_all add: paired_sink_remove)

lemma paired_emit_clear: "paired s \<Longrightarrow> paired (emit_clear s)"
  unfolding emit_clear_def
  by (rule paired_fold_sink_remove) (simp add: paired_def called_def)

lemma paired_add_client: "paired s \<Longrightarrow> paired (object_of (add_client ok p_stream p_socket s))"
  by (auto simp add: add_client_def pipeline_defs Let_def paired_def distinct_update dom_update)

lemma paired_play: "play ok b s = Inr s' \<Longrightarrow> paired s' = paired s"
proof -
  assume "play ok b s = Inr s'"
  then have "m_clients s' = m_clients s" "sink_sockets s' = sink_sockets s"
    by (auto simp add: pipeline_defs Let_def split: if_splits)
  then show ?thesis by (rule paired_fields)
qed

lemma paired_bus_watch:
  assumes "paired s" "bus_watch ok m s = Inr s'"
  shows "paired s'"
proof (cases m)
  case GST_MESSAGE_EOS
  then obtain s1 where s1: "play ok False (write_cerr [Str ''EOS received - halting pipeline\<newline>''] s) = Inr s1"
    "s' = emit_clear s1"
    using assms(2) by (auto split: sum.splits)
  have "paired s1" using paired_play [OF s1(1)] assms(1) by (simp add: paired_def write_cerr_def)
  then show ?thesis unfolding s1(2) by (rule paired_emit_clear)
next
  case (GST_MESSAGE_ERROR x y)
  then obtain s0 s1 where s1: "play ok False s0 = Inr s1" "s' = emit_clear s1"
    "m_clients s0 = m_clients s" "sink_sockets s0 = sink_sockets s"
    using assms(2) by (auto simp add: Let_def write_cerr_def called_def split: sum.splits)
  have "paired s1" using paired_play [OF s1(1)] assms(1) paired_fields [OF s1(3,4)] by simp
  then show ?thesis unfolding s1(2) by (rule paired_emit_clear)
next
  case (GST_MESSAGE_ELEMENT name)
  then show ?thesis using assms paired_play [of ok False s s']
    by (simp split: if_splits)
next
  case (GST_MESSAGE_STATE_CHANGED b x y z)
  then have "m_clients s' = m_clients s" "sink_sockets s' = sink_sockets s"
    using assms(2) by (auto simp add: pipeline_defs split: if_splits)
  then show ?thesis using assms(1) paired_fields by blast
next
  case (GST_MESSAGE_INFO x y)
  then have "m_clients s' = m_clients s" "sink_sockets s' = sink_sockets s"
    using assms(2) by (auto simp add: pipeline_defs)
  then show ?thesis using assms(1) paired_fields by blast
next
  case (GST_MESSAGE_WARNING x y)
  then have "m_clients s' = m_clients s" "sink_sockets s' = sink_sockets s"
    using assms(2) by (auto simp add: pipeline_defs)
  then show ?thesis using assms(1) paired_fields by blast
next
  case (GST_MESSAGE_REQUEST_STATE x y)
  then have "m_clients s' = m_clients s" "sink_sockets s' = sink_sockets s"
    using assms(2) by (auto simp add: pipeline_defs)
  then show ?thesis using assms(1) paired_fields by blast
next
  case GST_MESSAGE_LATENCY
  then have "m_clients s' = m_clients s" "sink_sockets s' = sink_sockets s"
    using assms(2) by (auto simp add: pipeline_defs)
  then show ?thesis using assms(1) paired_fields by blast
next
  case GST_MESSAGE_OTHER
  then show ?thesis using assms by simp
qed

lemma paired_step:
  assumes "paired s" "step e s = Inr s'"
  shows "paired s'"
proof (cases e)
  case (Wrote_headers ok p_stream p_socket)
  then have "s' = object_of (add_client ok p_stream p_socket s)" using assms(2) by simp
  then show ?thesis using assms(1) by (simp add: paired_add_client)
next
  case (Sink_removes x)
  then have "s' = sink_remove x s" using assms(2) by simp
  then show ?thesis using assms(1) by (simp add: paired_sink_remove)
next
  case (Engine_posts m)
  then have "s' = s\<lparr>bus := bus s @ [m]\<rparr>" using assms(2) by simp
  then show ?thesis using assms(1) by (simp add: paired_def)
next
  case (Bus_dispatch ok)
  show ?thesis
  proof (cases "bus s")
    case Nil
    then show ?thesis using assms Bus_dispatch by simp
  next
    case (Cons m ms)
    have "paired (s\<lparr>bus := ms\<rparr>)" using assms(1) by (simp add: paired_def)
    moreover have "bus_watch ok m (s\<lparr>bus := ms\<rparr>) = Inr s'"
      using assms(2) Bus_dispatch Cons by simp
    ultimately show ?thesis by (rule paired_bus_watch)
  qed
qed

lemma paired_run: "paired s \<Longrightarrow> run es s = Inr s' \<Longrightarrow> paired s'"
proof (induction es arbitrary: s)
  case Nil
  then show ?case by simp
next
  case (Cons e es)
  from Cons.prems(2) obtain s1 where s1: "step e s = Inr s1" "run es s1 = Inr s'"
    by (auto split: sum.splits)
  have "paired s1" using Cons.prems(1) s1(1) by (rule paired_step)
  then show ?case using s1(2) by (rule Cons.IH)
qed

lemma paired_constructed: "paired (constructed ct)"
  by (simp add: paired_def constructed_def)


text \<open>
  X2. The registry and the sink hold the same sockets, each of them once, in every state
  a run reaches from the constructed object.
\<close>

theorem registry_and_sink_hold_the_same_sockets:
  assumes "run evs (constructed p_content_type) = Inr s"
  shows "paired s"
  using paired_constructed assms by (rule paired_run)

theorem registry_and_sink_hold_the_same_sockets_witness:
  "run stale_stop_request (constructed ''application/ogg'') =
     Inr (object_of (run stale_stop_request fresh)) \<and>
   paired (object_of (run stale_stop_request fresh)) \<and>
   m_clients (object_of (run stale_stop_request fresh)) = [(2, 20)] \<and>
   sink_sockets (object_of (run stale_stop_request fresh)) = [2]"
proof -
  have r: "run stale_stop_request (constructed ''application/ogg'') =
     Inr (object_of (run stale_stop_request fresh))"
    "m_clients (object_of (run stale_stop_request fresh)) = [(2, 20)]"
    "sink_sockets (object_of (run stale_stop_request fresh)) = [2]"
    by (simp_all add: stale_stop_request_def fresh_def constructed_def add_client_def
        sink_remove_def on_client_socket_removed_def pipeline_defs Let_def)
  from registry_and_sink_hold_the_same_sockets [OF r(1)] r show ?thesis by blast
qed

lemma add_client_state:
  assumes "add_client ok p_stream p_socket s = Inr s'"
  shows "pipeline_state s' =
     (if length (AList.update p_socket p_stream (m_clients s)) = 1 then GST_STATE_PLAYING
      else pipeline_state s)"
  using assms by (auto simp add: add_client_def pipeline_defs Let_def split: if_splits)

lemma update_length_one: "length (AList.update k v al) \<noteq> 1 \<Longrightarrow> al \<noteq> []"
  by (cases al) auto

lemma play_inv_add_client:
  assumes "play_inv s" "settled s" "add_client ok p_stream p_socket s = Inr s'"
  shows "play_inv s'"
proof -
  have s': "s' = object_of (add_client ok p_stream p_socket s)" using assms(3) by simp
  have b: "bus s' = bus s" unfolding s' by (rule add_client_bus)
  have "pipeline_state s' = GST_STATE_PLAYING"
  proof (cases "length (AList.update p_socket p_stream (m_clients s)) = 1")
    case True
    then show ?thesis using add_client_state [OF assms(3)] by simp
  next
    case False
    then have "m_clients s \<noteq> []" by (rule update_length_one)
    then show ?thesis using add_client_state [OF assms(3)] False assms(1) by (simp add: play_inv_def)
  qed
  then show ?thesis using assms(2) b by (simp add: play_inv_def settled_def)
qed

lemma delete_not_Nil: "AList.delete k al \<noteq> [] \<Longrightarrow> al \<noteq> []"
  by (cases al) auto

lemma play_inv_sink_remove:
  assumes "play_inv s" shows "play_inv (sink_remove x s)"
proof (cases "x \<in> set (sink_sockets s)")
  case False
  then show ?thesis using assms by (simp add: sink_remove_def)
next
  case True
  let ?s0 = "s\<lparr>sink_sockets := removeAll x (sink_sockets s)\<rparr>"
  have e: "sink_remove x s = on_client_socket_removed x ?s0" using True by (simp add: sink_remove_def)
  show ?thesis
  proof (cases "m_clients (sink_remove x s) = []")
    case True
    then show ?thesis by (simp add: play_inv_def)
  next
    case False
    then have ne: "m_clients (on_client_socket_removed x ?s0) \<noteq> []" using e by simp
    have "m_clients s \<noteq> []"
      using False delete_not_Nil [of x "m_clients s"] by (auto simp add: sink_remove_clients split: if_splits)
    then have "pipeline_state s = GST_STATE_PLAYING" "settled s"
      using assms by (simp_all add: play_inv_def)
    moreover have "bus (sink_remove x s) = bus s"
      using removed_nonempty_no_post(1) [OF ne] e by simp
    moreover have "pipeline_state (sink_remove x s) = pipeline_state s"
      by (rule sink_remove_state)
    ultimately show ?thesis by (simp add: play_inv_def settled_def)
  qed
qed

lemma bus_watch_unchanged:
  assumes "bus_watch ok m s = Inr s'" "\<not> is_request_state m"
    "m \<noteq> GST_MESSAGE_ELEMENT ''StopPipeline''" "m \<noteq> GST_MESSAGE_EOS"
    "\<forall>x y. m \<noteq> GST_MESSAGE_ERROR x y"
  shows "m_clients s' = m_clients s \<and> pipeline_state s' = pipeline_state s \<and> bus s' = bus s"
  using assms by (cases m) (auto simp add: pipeline_defs split: if_splits)

lemma bus_watch_clears:
  assumes "paired s" "bus_watch ok m s = Inr s'"
    "m = GST_MESSAGE_EOS \<or> (\<exists>x y. m = GST_MESSAGE_ERROR x y)"
  shows "m_clients s' = []"
proof -
  obtain s0 s1 where s1: "play ok False s0 = Inr s1" "s' = emit_clear s1"
    "m_clients s0 = m_clients s" "sink_sockets s0 = sink_sockets s"
    using assms(2,3) by (auto simp add: Let_def write_cerr_def called_def split: sum.splits)
  have "paired s1" using paired_play [OF s1(1)] assms(1) paired_fields [OF s1(3,4)] by simp
  then show ?thesis unfolding s1(2) by (rule emit_clear_effect(1))
qed

lemma bus_watch_stop_clients:
  assumes "bus_watch ok (GST_MESSAGE_ELEMENT ''StopPipeline'') s = Inr s'"
  shows "m_clients s' = m_clients s"
  using assms by (auto simp add: pipeline_defs Let_def split: if_splits)

lemma play_inv_bus_watch:
  assumes "play_inv (s\<lparr>bus := m # ms\<rparr>)" "paired s" "\<not> is_request_state m"
    "bus_watch ok m (s\<lparr>bus := ms\<rparr>) = Inr s'"
  shows "play_inv s'"
proof -
  let ?s0 = "s\<lparr>bus := ms\<rparr>"
  have p0: "paired ?s0" using assms(2) by (simp add: paired_def)
  consider (fatal) "m = GST_MESSAGE_EOS \<or> (\<exists>x y. m = GST_MESSAGE_ERROR x y)"
    | (stop) "m = GST_MESSAGE_ELEMENT ''StopPipeline''"
    | (other) "m \<noteq> GST_MESSAGE_ELEMENT ''StopPipeline''" "m \<noteq> GST_MESSAGE_EOS"
        "\<forall>x y. m \<noteq> GST_MESSAGE_ERROR x y"
    by blast
  then show ?thesis
  proof cases
    case fatal
    then have "m_clients s' = []" using bus_watch_clears [OF p0 assms(4)] by simp
    then show ?thesis by (simp add: play_inv_def)
  next
    case stop
    have "m_clients s = []"
      using assms(1) stop by (auto simp add: play_inv_def settled_def)
    then have "m_clients s' = []" using bus_watch_stop_clients assms(4) stop by simp
    then show ?thesis by (simp add: play_inv_def)
  next
    case other
    have "m_clients s' = m_clients ?s0 \<and> pipeline_state s' = pipeline_state ?s0 \<and> bus s' = bus ?s0"
      using assms(4,3) other by (rule bus_watch_unchanged)
    then show ?thesis using assms(1) by (auto simp add: play_inv_def settled_def)
  qed
qed

lemma play_inv_step:
  assumes "play_inv s" "paired s" "stop_inv s" "in_order e s" "step e s = Inr s'"
  shows "play_inv s'"
proof (cases e)
  case (Wrote_headers ok p_stream p_socket)
  then show ?thesis using assms play_inv_add_client [of s ok p_stream p_socket s'] by simp
next
  case (Sink_removes x)
  then have "s' = sink_remove x s" using assms(5) by simp
  then show ?thesis using assms(1) by (simp add: play_inv_sink_remove)
next
  case (Engine_posts m)
  then have "s' = s\<lparr>bus := bus s @ [m]\<rparr>" "m \<noteq> GST_MESSAGE_ELEMENT ''StopPipeline''"
    using assms(4,5) by simp_all
  then show ?thesis using assms(1) by (simp add: play_inv_def settled_def)
next
  case (Bus_dispatch ok)
  show ?thesis
  proof (cases "bus s")
    case Nil
    then show ?thesis using assms Bus_dispatch by simp
  next
    case (Cons m ms)
    then have "s\<lparr>bus := m # ms\<rparr> = s" by simp
    then have "play_inv (s\<lparr>bus := m # ms\<rparr>)" using assms(1) by simp
    moreover note assms(2)
    moreover have "\<not> is_request_state m" using assms(3) Cons by (simp add: stop_inv_def)
    moreover have "bus_watch ok m (s\<lparr>bus := ms\<rparr>) = Inr s'"
      using assms(5) Bus_dispatch Cons by simp
    ultimately show ?thesis by (rule play_inv_bus_watch)
  qed
qed

lemma play_inv_run:
  "play_inv s \<Longrightarrow> paired s \<Longrightarrow> stop_inv s \<Longrightarrow> orderly es s \<Longrightarrow> run es s = Inr s' \<Longrightarrow>
     \<forall>m\<in>set (posted es). \<not> is_request_state m \<Longrightarrow> play_inv s'"
proof (induction es arbitrary: s)
  case Nil
  then show ?case by simp
next
  case (Cons e es)
  from Cons.prems(5) obtain s1 where s1: "step e s = Inr s1" "run es s1 = Inr s'"
    by (auto split: sum.splits)
  have o: "in_order e s" "orderly es s1" using Cons.prems(4) s1(1) by simp_all
  have p: "\<forall>m\<in>set (posted [e]). \<not> is_request_state m" "\<forall>m\<in>set (posted es). \<not> is_request_state m"
    using Cons.prems(6) posted_Cons [of e es] by auto
  have "play_inv s1" using Cons.prems(1,2,3) o(1) s1(1) by (rule play_inv_step)
  moreover have "paired s1" using Cons.prems(2) s1(1) by (rule paired_step)
  moreover have "stop_inv s1" using Cons.prems(3) s1(1) p(1) by (rule stop_inv_step)
  ultimately show ?case using o(2) s1(2) p(2) by (rule Cons.IH)
qed

lemma play_inv_constructed: "play_inv (constructed ct)"
  by (simp add: play_inv_def constructed_def)

text \<open>
  C2. The claim: in every reachable settled state, an empty registry means the state
  Paused and a non-empty registry the state Playing. Neither holds. \<open>play(false)\<close> asks
  for \<open>GST_STATE_READY\<close> and nothing in the program asks for PAUSED: the object as
  constructed has no client and no stop request waiting and is in READY, and so is the
  object after its last client has left and the stop request has been handled. And when a
  client arrives between the last client leaving and the main loop handling the stop
  request, the request is handled after \<open>play(true)\<close>: the run ends with one client
  registered, nothing waiting on the bus, and the pipeline in READY.
\<close>

theorem settled_state_neither_paused_nor_playing:
  "run [] fresh = Inr fresh \<and> m_clients fresh = [] \<and> settled fresh \<and>
   pipeline_state fresh \<noteq> GST_STATE_PAUSED \<and>
   run last_client_leaves fresh = Inr (object_of (run last_client_leaves fresh)) \<and>
   m_clients (object_of (run last_client_leaves fresh)) = [] \<and>
   settled (object_of (run last_client_leaves fresh)) \<and>
   pipeline_state (object_of (run last_client_leaves fresh)) \<noteq> GST_STATE_PAUSED \<and>
   run stale_stop_request fresh = Inr (object_of (run stale_stop_request fresh)) \<and>
   m_clients (object_of (run stale_stop_request fresh)) = [(2, 20)] \<and>
   bus (object_of (run stale_stop_request fresh)) = [] \<and>
   settled (object_of (run stale_stop_request fresh)) \<and>
   pipeline_state (object_of (run stale_stop_request fresh)) \<noteq> GST_STATE_PLAYING"
  by (simp add: stale_stop_request_def last_client_leaves_def fresh_def constructed_def
        settled_def add_client_def sink_remove_def on_client_socket_removed_def
        pipeline_defs Let_def)

text \<open>
  C2 as the code has it. Take any run from the constructed object on whose bus the engine
  posts no state request. In every state it reaches with an empty registry and no stop
  request waiting, the pipeline is in READY. And when the run is orderly (no client is
  registered while a stop request waits, and the engine posts no stop request of its
  own), in every state it reaches with a non-empty registry the pipeline is in PLAYING
  and no stop request waits.
\<close>

theorem settled_state_is_ready_or_playing:
  assumes "run evs (constructed p_content_type) = Inr s"
    and "\<forall>m\<in>set (posted evs). \<not> is_request_state m"
  shows "(m_clients s = [] \<and> settled s \<longrightarrow> pipeline_state s = GST_STATE_READY) \<and>
         (orderly evs (constructed p_content_type) \<and> m_clients s \<noteq> [] \<longrightarrow>
            pipeline_state s = GST_STATE_PLAYING \<and> settled s)"
proof -
  have "stop_inv s" using stop_inv_constructed assms(1,2) by (rule stop_inv_run)
  then have ready: "m_clients s = [] \<and> settled s \<longrightarrow> pipeline_state s = GST_STATE_READY"
    by (simp add: stop_inv_def)
  have "play_inv s" if "orderly evs (constructed p_content_type)"
    using play_inv_constructed paired_constructed stop_inv_constructed that assms(1,2)
    by (rule play_inv_run)
  then show ?thesis using ready by (auto simp add: play_inv_def)
qed

theorem settled_state_is_ready_or_playing_witness:
  "run last_client_leaves (constructed ''application/ogg'') =
     Inr (object_of (run last_client_leaves fresh)) \<and>
   posted last_client_leaves = [] \<and>
   m_clients (object_of (run last_client_leaves fresh)) = [] \<and>
   settled (object_of (run last_client_leaves fresh)) \<and>
   pipeline_state (object_of (run last_client_leaves fresh)) = GST_STATE_READY \<and>
   run stop_then_new_client (constructed ''application/ogg'') =
     Inr (object_of (run stop_then_new_client fresh)) \<and>
   posted stop_then_new_client = [] \<and>
   orderly stop_then_new_client (constructed ''application/ogg'') \<and>
   m_clients (object_of (run stop_then_new_client fresh)) = [(2, 20)] \<and>
   pipeline_state (object_of (run stop_then_new_client fresh)) = GST_STATE_PLAYING \<and>
   \<not> orderly stale_stop_request (constructed ''application/ogg'')"
proof -
  have r: "run last_client_leaves (constructed ''application/ogg'') =
      Inr (object_of (run last_client_leaves fresh))"
    "m_clients (object_of (run last_client_leaves fresh)) = []"
    "settled (object_of (run last_client_leaves fresh))"
    by (simp_all add: last_client_leaves_def fresh_def constructed_def settled_def
        add_client_def sink_remove_def on_client_socket_removed_def pipeline_defs Let_def)
  have p: "posted last_client_leaves = []" "posted stop_then_new_client = []"
    by (simp_all add: last_client_leaves_def stop_then_new_client_def)
  have np: "\<forall>m\<in>set (posted last_client_leaves). \<not> is_request_state m"
    "\<forall>m\<in>set (posted stop_then_new_client). \<not> is_request_state m"
    by (simp_all add: p)
  have q: "run stop_then_new_client (constructed ''application/ogg'') =
      Inr (object_of (run stop_then_new_client fresh))"
    "orderly stop_then_new_client (constructed ''application/ogg'')"
    "m_clients (object_of (run stop_then_new_client fresh)) = [(2, 20)]"
    by (simp_all add: stop_then_new_client_def fresh_def constructed_def settled_def
        add_client_def sink_remove_def on_client_socket_removed_def pipeline_defs Let_def)
  have race: "\<not> orderly stale_stop_request (constructed ''application/ogg'')"
    by (simp add: stale_stop_request_def constructed_def settled_def
        add_client_def sink_remove_def on_client_socket_removed_def pipeline_defs Let_def)
  have ready: "pipeline_state (object_of (run last_client_leaves fresh)) = GST_STATE_READY"
    using settled_state_is_ready_or_playing [OF r(1) np(1)] r(2,3) by blast
  have "m_clients (object_of (run stop_then_new_client fresh)) \<noteq> []"
    by (simp add: q(3))
  then have playing: "pipeline_state (object_of (run stop_then_new_client fresh)) = GST_STATE_PLAYING"
    using settled_state_is_ready_or_playing [OF q(1) np(2)] q(2) by blast
  from r p q race ready playing show ?thesis by blast
qed

section \<open>The scope guard\<close>

lemma guard_life_flag:
  "m_dismissed (guard_life ops g) = (m_dismissed g \<or> ops \<noteq> [])"
proof -
  have "m_dismissed g \<Longrightarrow> m_dismissed (fold guard_apply ops g)" for ops and g :: "'a scope_guard_impl"
  proof (induction ops arbitrary: g)
    case Nil then show ?case by simp
  next
    case (Cons a ops)
    have "m_dismissed (guard_apply a g)"
      by (cases a) (simp_all add: dismiss_def scope_guard_move_def)
    then show ?case using Cons.IH by simp
  qed
  note keep = this
  show ?thesis
  proof (cases ops)
    case Nil then show ?thesis by (simp add: guard_life_def)
  next
    case (Cons a ops')
    have "m_dismissed (guard_apply a g)"
      by (cases a) (simp_all add: dismiss_def scope_guard_move_def)
    then show ?thesis using keep [of "guard_apply a g" ops'] Cons by (simp add: guard_life_def)
  qed
qed

lemma guard_life_Nil: "guard_life [] g = g"
  by (simp add: guard_life_def)

lemma dtor_life:
  "scope_guard_dtor (guard_life ops g) w =
     (if m_dismissed g \<or> ops \<noteq> [] then Returns w else catch_all (invoke (m_func g) w))"
proof (cases "ops = []")
  case True
  then show ?thesis by (simp add: guard_life_Nil scope_guard_dtor_def)
next
  case False
  then show ?thesis using guard_life_flag [of ops g] by (simp add: scope_guard_dtor_def)
qed

lemma dtor_returns: "\<exists>w'. scope_guard_dtor g w = Returns w'"
  by (cases "invoke (m_func g) w") (simp_all add: scope_guard_dtor_def catch_all_def)

lemma counting_once: "fst (world_of (catch_all (counting body (n, u)))) = Suc n"
  by (simp add: counting_def catch_all_def split: completion.split)

text \<open>
  C10. The claim: the cleanup function runs at destruction if and only if \<open>dismiss()\<close> was
  never called on the guard and the guard was not moved from. The move constructor copies
  the flag: a guard move-constructed from a dismissed guard is dismissed from its first
  moment. Here such a guard lives with no \<open>dismiss()\<close> called on it and nothing moved out
  of it, and its destructor leaves the count of executions at 0.
\<close>

theorem moved_to_guard_inherits_dismissal:
  "guard_life [] (fst (scope_guard_move (dismiss (scope_guard_ctor (counting Returns))))) =
     fst (scope_guard_move (dismiss (scope_guard_ctor (counting Returns)))) \<and>
   scope_guard_dtor
     (guard_life [] (fst (scope_guard_move (dismiss (scope_guard_ctor (counting Returns))))))
     (0, ()) = Returns (0, ())"
  by (simp add: guard_life_def scope_guard_dtor_def scope_guard_move_def dismiss_def
        scope_guard_ctor_def)

text \<open>
  C10 as the code has it. For every guard \<open>g\<close>, however it was constructed, every life
  \<open>ops\<close> of \<open>dismiss()\<close> calls and moves out of it, and every world: the destructor runs
  the function once, swallowing what it throws, when the flag was clear at construction
  and \<open>ops\<close> is empty, and does nothing otherwise. A guard constructed from a function
  starts with the flag clear, so its function is executed once when \<open>ops\<close> is empty and
  not at all otherwise (the count of executions says so). A move-constructed guard starts
  with the flag and the function of its source. \<open>dismiss()\<close> twice is \<open>dismiss()\<close> once;
  the destructor of a moved-from guard does nothing, whatever happens to it afterwards;
  and the destructor always returns.
\<close>

theorem scope_guard_runs_once_iff_flag_clear:
  "scope_guard_dtor (guard_life ops g) w =
     (if m_dismissed g \<or> ops \<noteq> [] then Returns w else catch_all (invoke (m_func g) w)) \<and>
   fst (world_of (scope_guard_dtor (guard_life ops (scope_guard_ctor (counting body))) (n, u))) =
     (if ops = [] then Suc n else n) \<and>
   m_dismissed (fst (scope_guard_move g)) = m_dismissed g \<and>
   m_func (fst (scope_guard_move g)) = m_func g \<and>
   dismiss (dismiss g) = dismiss g \<and>
   scope_guard_dtor (guard_life ops (snd (scope_guard_move g))) w = Returns w \<and>
   (\<exists>w'. scope_guard_dtor g w = Returns w')"
proof -
  have "fst (world_of (scope_guard_dtor (guard_life ops (scope_guard_ctor (counting body))) (n, u))) =
     (if ops = [] then Suc n else n)"
    using counting_once [of body n u]
    by (simp add: dtor_life scope_guard_ctor_def invoke_def)
  moreover have "scope_guard_dtor (guard_life ops (snd (scope_guard_move g))) w = Returns w"
    by (simp add: dtor_life scope_guard_move_def)
  ultimately show ?thesis
    using dtor_life [of ops g w] dtor_returns [of g w]
    by (simp add: scope_guard_move_def dismiss_def)
qed

theorem scope_guard_runs_once_iff_flag_clear_witness:
  "scope_guard_dtor (guard_life [] (scope_guard_ctor (counting Throws))) (0, ()) = Returns (1, ()) \<and>
   scope_guard_dtor (guard_life [Dismiss, Dismiss] (scope_guard_ctor (counting Throws))) (0, ()) =
     Returns (0, ()) \<and>
   scope_guard_dtor (guard_life [Moved_from] (scope_guard_ctor (counting Throws))) (0, ()) =
     Returns (0, ()) \<and>
   scope_guard_dtor (guard_life [] (fst (scope_guard_move (scope_guard_ctor (counting Throws)))))
     (0, ()) = Returns (1, ())"
proof -
  let ?g = "scope_guard_ctor (counting Throws) :: (nat \<times> unit) scope_guard_impl"
  let ?w = "(0, ()) :: nat \<times> unit"
  have run: "catch_all (invoke (m_func ?g) ?w) = Returns (1, ())"
    by (simp add: scope_guard_ctor_def invoke_def catch_all_def counting_def)
  have clear: "\<not> m_dismissed ?g" "\<not> m_dismissed (fst (scope_guard_move ?g))"
    "m_func (fst (scope_guard_move ?g)) = m_func ?g"
    by (simp_all add: scope_guard_ctor_def scope_guard_move_def)
  have "scope_guard_dtor (guard_life [] ?g) ?w = Returns (1, ())"
    using scope_guard_runs_once_iff_flag_clear [of "[]" ?g ?w Throws 0 "()"] clear run
    by simp
  moreover have "scope_guard_dtor (guard_life [Dismiss, Dismiss] ?g) ?w = Returns ?w"
    using scope_guard_runs_once_iff_flag_clear [of "[Dismiss, Dismiss]" ?g ?w Throws 0 "()"]
    by simp
  moreover have "scope_guard_dtor (guard_life [Moved_from] ?g) ?w = Returns ?w"
    using scope_guard_runs_once_iff_flag_clear [of "[Moved_from]" ?g ?w Throws 0 "()"]
    by simp
  moreover have "scope_guard_dtor (guard_life [] (fst (scope_guard_move ?g))) ?w = Returns (1, ())"
    using scope_guard_runs_once_iff_flag_clear
      [of "[]" "fst (scope_guard_move ?g)" ?w Throws 0 "()"] clear run
    by simp
  ultimately show ?thesis by blast
qed

section \<open>main: the port and the exit status\<close>

lemma digit_not_space: "isdigit c \<Longrightarrow> \<not> isspace c"
  by (auto simp add: isdigit_def isspace_def)

lemma digit_not_sign: "isdigit c \<Longrightarrow> c \<noteq> CHR ''-'' \<and> c \<noteq> CHR ''+''"
  by (auto simp add: isdigit_def)

lemma sign_not_space: "\<not> isspace CHR ''-''" "\<not> isspace CHR ''+''"
  by (simp_all add: isspace_def)

lemma takeWhile_digits:
  assumes "list_all isdigit r" "t = [] \<or> \<not> isdigit (hd t)"
  shows "takeWhile isdigit (r @ t) = r"
proof -
  have "takeWhile isdigit t = []" using assms(2) by (cases t) auto
  moreover have "\<And>x. x \<in> set r \<Longrightarrow> isdigit x" using assms(1) by (simp add: list_all_iff)
  ultimately show ?thesis by (simp add: takeWhile_append2)
qed

lemma stoi_accepts:
  assumes ws: "list_all isspace ws" and s: "valid_integer s"
    and t: "t = [] \<or> \<not> isdigit (hd t)"
  shows "stoi (ws @ s @ t) =
     (if integer_denoted s < - (2 ^ 31) \<or> 2 ^ 31 - 1 < integer_denoted s
      then Inl Out_of_range else Inr (integer_denoted s))"
proof -
  from s obtain c r where cr: "s = c # r" by (cases s) (simp_all add: valid_integer_def)
  have nsp: "\<not> isspace c"
    using s cr digit_not_space sign_not_space by (auto simp add: valid_integer_def split: if_splits)
  have "\<And>x. x \<in> set ws \<Longrightarrow> isspace x" using ws by (simp add: list_all_iff)
  then have d: "dropWhile isspace (ws @ c # r @ t) = c # r @ t"
    using nsp by (simp add: dropWhile_append2)
  show ?thesis
  proof (cases "c = CHR ''-'' \<or> c = CHR ''+''")
    case True
    then have r: "r \<noteq> []" "list_all isdigit r" using s cr by (simp_all add: valid_integer_def)
    have tk: "takeWhile isdigit (r @ t) = r" using r(2) t by (rule takeWhile_digits)
    show ?thesis unfolding cr using True r(1)
      by (auto simp add: stoi_def d tk Let_def integer_denoted_def)
  next
    case False
    then have r: "list_all isdigit (c # r)" using s cr by (simp add: valid_integer_def)
    have "takeWhile isdigit ((c # r) @ t) = c # r" using r t by (rule takeWhile_digits)
    then have tk: "takeWhile isdigit (c # r @ t) = c # r" by simp
    show ?thesis unfolding cr using False
      by (simp add: stoi_def d tk Let_def integer_denoted_def del: takeWhile.simps)
  qed
qed

lemma stoi_shape:
  assumes "stoi str \<noteq> Inl Invalid_argument"
  shows "\<exists>ws s t. str = ws @ s @ t \<and> list_all isspace ws \<and> valid_integer s \<and>
           (t = [] \<or> \<not> isdigit (hd t))"
proof -
  let ?ws = "takeWhile isspace str"
  let ?s1 = "dropWhile isspace str"
  let ?s2 = "case ?s1 of [] \<Rightarrow> ?s1 | c # r \<Rightarrow> if c = CHR ''-'' \<or> c = CHR ''+'' then r else ?s1"
  let ?ds = "takeWhile isdigit ?s2"
  let ?t = "dropWhile isdigit ?s2"
  have ds: "?ds \<noteq> []" using assms by (auto simp add: stoi_def Let_def split: if_splits)
  have all: "list_all isdigit ?ds" by (simp add: list_all_iff) (meson set_takeWhileD)
  have t: "?t = [] \<or> \<not> isdigit (hd ?t)" using hd_dropWhile [of isdigit ?s2] by blast
  have ws: "list_all isspace ?ws" by (simp add: list_all_iff) (meson set_takeWhileD)
  have s2: "?s2 = ?ds @ ?t" by simp
  show ?thesis
  proof (cases ?s1)
    case Nil
    have "?ds = []" unfolding Nil by simp
    with ds show ?thesis by blast
  next
    case (Cons c r)
    show ?thesis
    proof (cases "c = CHR ''-'' \<or> c = CHR ''+''")
      case True
      then have "?s2 = r" using Cons by simp
      then have r: "r = ?ds @ ?t" using s2 by simp
      have "str = ?ws @ (c # ?ds) @ ?t"
        using takeWhile_dropWhile_id [of isspace str] Cons r by (metis append_Cons)
      moreover have "valid_integer (c # ?ds)" using True ds all by (simp add: valid_integer_def)
      ultimately show ?thesis using ws t by blast
    next
      case False
      then have e: "?s2 = ?s1" using Cons by simp
      then have "str = ?ws @ ?ds @ ?t"
        using takeWhile_dropWhile_id [of isspace str] s2 by metis
      moreover have "valid_integer ?ds"
      proof -
        obtain d ds' where dd: "?ds = d # ds'" using ds by (cases ?ds) auto
        then have "isdigit d" using all by simp
        then have "d \<noteq> CHR ''-''" "d \<noteq> CHR ''+''" using digit_not_sign by auto
        then show ?thesis using all dd by (simp add: valid_integer_def)
      qed
      ultimately show ?thesis using ws t by blast
    qed
  qed
qed

lemma stoi_accepts_iff:
  "stoi str = Inr v \<longleftrightarrow>
     (\<exists>ws s t. str = ws @ s @ t \<and> list_all isspace ws \<and> valid_integer s \<and>
        (t = [] \<or> \<not> isdigit (hd t)) \<and>
        - (2 ^ 31) \<le> integer_denoted s \<and> integer_denoted s \<le> 2 ^ 31 - 1 \<and>
        v = integer_denoted s)"
proof
  assume v: "stoi str = Inr v"
  then have "stoi str \<noteq> Inl Invalid_argument" by simp
  then obtain ws s t where shape: "str = ws @ s @ t" "list_all isspace ws" "valid_integer s"
    "t = [] \<or> \<not> isdigit (hd t)"
    using stoi_shape by blast
  have "stoi str =
     (if integer_denoted s < - (2 ^ 31) \<or> 2 ^ 31 - 1 < integer_denoted s
      then Inl Out_of_range else Inr (integer_denoted s))"
    unfolding shape(1) using shape(2-4) by (rule stoi_accepts)
  with v have "- (2 ^ 31) \<le> integer_denoted s \<and> integer_denoted s \<le> 2 ^ 31 - 1 \<and>
      v = integer_denoted s"
    by (auto split: if_splits)
  with shape show "\<exists>ws s t. str = ws @ s @ t \<and> list_all isspace ws \<and> valid_integer s \<and>
        (t = [] \<or> \<not> isdigit (hd t)) \<and>
        - (2 ^ 31) \<le> integer_denoted s \<and> integer_denoted s \<le> 2 ^ 31 - 1 \<and>
        v = integer_denoted s"
    by blast
next
  assume "\<exists>ws s t. str = ws @ s @ t \<and> list_all isspace ws \<and> valid_integer s \<and>
        (t = [] \<or> \<not> isdigit (hd t)) \<and>
        - (2 ^ 31) \<le> integer_denoted s \<and> integer_denoted s \<le> 2 ^ 31 - 1 \<and>
        v = integer_denoted s"
  then obtain ws s t where shape: "str = ws @ s @ t" "list_all isspace ws" "valid_integer s"
    "t = [] \<or> \<not> isdigit (hd t)"
    and range: "- (2 ^ 31) \<le> integer_denoted s" "integer_denoted s \<le> 2 ^ 31 - 1"
    and v: "v = integer_denoted s"
    by blast
  have "stoi str =
     (if integer_denoted s < - (2 ^ 31) \<or> 2 ^ 31 - 1 < integer_denoted s
      then Inl Out_of_range else Inr (integer_denoted s))"
    unfolding shape(1) using shape(2-4) by (rule stoi_accepts)
  then show "stoi str = Inr v" using range v by simp
qed

lemmas main_defs = main_def serve_def leave_def scope_guard_dtor_def scope_guard_ctor_def
  catch_all_def invoke_def exit_sighandler_def print_def did_def

lemma main_invalid_port:
  assumes "5 \<le> length argv" "soup_server_new_ok env" "main_loop_new_ok env"
    and "stoi (argv ! 1) = Inl e"
  shows "main env argv =
     (Returned (- 1),
      \<lparr>proc_cerr = [Str (''Invalid port number '' @ [CHR 0x22]), Str (argv ! 1),
                    Str ([CHR 0x22] @ ''\<newline>'')],
       proc_calls = [G_main_loop_unref, G_object_unref_soup_server]\<rparr>)"
  using assms by (simp add: main_defs Let_def)

lemma main_goes_on:
  assumes "5 \<le> length argv" "soup_server_new_ok env" "main_loop_new_ok env"
    and "stoi (argv ! 1) = Inr v"
  shows "main env argv =
     serve env argv (word_of_int v)
       [scope_guard_ctor (\<lambda>w. Returns (did G_main_loop_unref w)),
        scope_guard_ctor (\<lambda>w. Returns (did G_object_unref_soup_server w))]
       \<lparr>proc_cerr = [], proc_calls = []\<rparr>"
  using assms by (simp add: main_def Let_def)


lemma main_valid_port:
  assumes "5 \<le> length argv" "soup_server_new_ok env" "main_loop_new_ok env"
    and "stoi (argv ! 1) = Inr v"
    and "http_stream_pipeline_ctor (construction_answers env) (argv ! 2) = Inr p"
  shows "take 2 (proc_calls (snd (main env argv))) =
     [Soup_server_add_handler, Soup_server_listen_all (word_of_int v)]"
  using assms by (simp add: main_defs Let_def split: option.split sum.split)

text \<open>
  C8. The claim: a port argument that is not a valid integer makes startup fail, and a
  valid integer passes. The code validates with \<open>std::stoi\<close> and nothing else, and
  \<open>std::stoi\<close> reads a leading integer and leaves the rest unread: \<open>8080x\<close> is not a
  valid integer, and the server listens on port 8080 and the run ends with status 0.
  The other way round, \<open>99999999999\<close> is a valid integer, and \<open>std::stoi\<close> throws
  \<open>std::out_of_range\<close> on it: the run ends with the return value -1.
\<close>

theorem port_validation_is_not_integer_validity:
  "\<not> valid_integer ''8080x'' \<and> stoi ''8080x'' = Inr 8080 \<and>
   take 2 (proc_calls (snd (main all_succeed (command_line ''8080x'')))) =
     [Soup_server_add_handler, Soup_server_listen_all 8080] \<and>
   fst (main all_succeed (command_line ''8080x'')) = Returned 0 \<and>
   valid_integer ''99999999999'' \<and> stoi ''99999999999'' = Inl Out_of_range \<and>
   fst (main all_succeed (command_line ''99999999999'')) = Returned (- 1)"
  by (simp add: main_defs all_succeed_def command_line_def valid_integer_def stoi_def
        isspace_def isdigit_def digits_value_def http_stream_pipeline_ctor_def Let_def)

text \<open>
  C8 as the code has it. The validation is \<open>std::stoi\<close>'s: it passes, with the value
  \<open>v\<close>, exactly for an argument made of white space (possibly none), then a valid integer
  that denotes \<open>v\<close> and lies in the range of a 32-bit \<open>int\<close>, then any text that does not
  start with a digit. With enough arguments, a server and a main loop: when it fails, the
  process prints \<open>Invalid port number\<close> with the argument in quotes, unrefs the main loop
  and the server and returns -1, exit status 255, without any call to listen; when it
  passes, nothing has been printed and \<open>main\<close> goes on into its \<open>try\<close> block with \<open>v\<close>
  as an unsigned 32-bit number for the port; and when the pipeline is then constructed, the
  handler is added and the server is asked to listen on that port.
\<close>

theorem port_validation_is_stoi:
  assumes "5 \<le> length argv" "soup_server_new_ok env" "main_loop_new_ok env"
  shows "(\<forall>e. stoi (argv ! 1) = Inl e \<longrightarrow>
            main env argv =
              (Returned (- 1),
               \<lparr>proc_cerr = [Str (''Invalid port number '' @ [CHR 0x22]), Str (argv ! 1),
                             Str ([CHR 0x22] @ ''\<newline>'')],
                proc_calls = [G_main_loop_unref, G_object_unref_soup_server]\<rparr>) \<and>
            exit_status (fst (main env argv)) = Some 255) \<and>
         (\<forall>v. stoi (argv ! 1) = Inr v \<longrightarrow>
            main env argv =
              serve env argv (word_of_int v)
                [scope_guard_ctor (\<lambda>w. Returns (did G_main_loop_unref w)),
                 scope_guard_ctor (\<lambda>w. Returns (did G_object_unref_soup_server w))]
                \<lparr>proc_cerr = [], proc_calls = []\<rparr>) \<and>
         (\<forall>v p. stoi (argv ! 1) = Inr v \<and>
                 http_stream_pipeline_ctor (construction_answers env) (argv ! 2) = Inr p \<longrightarrow>
            take 2 (proc_calls (snd (main env argv))) =
              [Soup_server_add_handler, Soup_server_listen_all (word_of_int v)]) \<and>
         (\<forall>str v. stoi str = Inr v \<longleftrightarrow>
            (\<exists>ws s t. str = ws @ s @ t \<and> list_all isspace ws \<and> valid_integer s \<and>
               (t = [] \<or> \<not> isdigit (hd t)) \<and>
               - (2 ^ 31) \<le> integer_denoted s \<and> integer_denoted s \<le> 2 ^ 31 - 1 \<and>
               v = integer_denoted s))"
proof -
  have "main env argv =
          (Returned (- 1),
           \<lparr>proc_cerr = [Str (''Invalid port number '' @ [CHR 0x22]), Str (argv ! 1),
                         Str ([CHR 0x22] @ ''\<newline>'')],
            proc_calls = [G_main_loop_unref, G_object_unref_soup_server]\<rparr>) \<and>
        exit_status (fst (main env argv)) = Some 255"
    if "stoi (argv ! 1) = Inl e" for e
    using main_invalid_port [OF assms that] by simp
  moreover have "take 2 (proc_calls (snd (main env argv))) =
      [Soup_server_add_handler, Soup_server_listen_all (word_of_int v)]"
    if "stoi (argv ! 1) = Inr v \<and>
        http_stream_pipeline_ctor (construction_answers env) (argv ! 2) = Inr p" for v p
    using main_valid_port [OF assms, of v p] that by blast
  moreover have "main env argv =
      serve env argv (word_of_int v)
        [scope_guard_ctor (\<lambda>w. Returns (did G_main_loop_unref w)),
         scope_guard_ctor (\<lambda>w. Returns (did G_object_unref_soup_server w))]
        \<lparr>proc_cerr = [], proc_calls = []\<rparr>"
    if "stoi (argv ! 1) = Inr v" for v
    using assms that by (rule main_goes_on)
  ultimately show ?thesis using stoi_accepts_iff by blast
qed

theorem port_validation_is_stoi_witness:
  "5 \<le> length (command_line ''port'') \<and> soup_server_new_ok all_succeed \<and>
   main_loop_new_ok all_succeed \<and>
   stoi (command_line ''port'' ! 1) = Inl Invalid_argument \<and>
   main all_succeed (command_line ''port'') =
     (Returned (- 1),
      \<lparr>proc_cerr = [Str (''Invalid port number '' @ [CHR 0x22]), Str ''port'',
                    Str ([CHR 0x22] @ ''\<newline>'')],
       proc_calls = [G_main_loop_unref, G_object_unref_soup_server]\<rparr>) \<and>
   stoi (command_line ''8080'' ! 1) = Inr 8080 \<and>
   take 2 (proc_calls (snd (main all_succeed (command_line ''8080'')))) =
     [Soup_server_add_handler, Soup_server_listen_all 8080]"
proof -
  have h: "5 \<le> length (command_line ''port'')" "5 \<le> length (command_line ''8080'')"
    "soup_server_new_ok all_succeed" "main_loop_new_ok all_succeed"
    by (simp_all add: command_line_def all_succeed_def)
  have bad: "stoi (command_line ''port'' ! 1) = Inl Invalid_argument"
    "command_line ''port'' ! 1 = ''port''"
    by (simp_all add: command_line_def stoi_def isspace_def isdigit_def Let_def)
  have good: "stoi (command_line ''8080'' ! 1) = Inr 8080"
    "http_stream_pipeline_ctor (construction_answers all_succeed) (command_line ''8080'' ! 2) =
       Inr (constructed ''application/ogg'')"
    by (simp_all add: command_line_def stoi_def isspace_def isdigit_def digits_value_def
          http_stream_pipeline_ctor_def all_succeed_def Let_def)
  have "main all_succeed (command_line ''port'') =
     (Returned (- 1),
      \<lparr>proc_cerr = [Str (''Invalid port number '' @ [CHR 0x22]), Str (command_line ''port'' ! 1),
                    Str ([CHR 0x22] @ ''\<newline>'')],
       proc_calls = [G_main_loop_unref, G_object_unref_soup_server]\<rparr>)"
    by (rule port_validation_is_stoi
          [OF h(1) h(3) h(4), THEN conjunct1, rule_format, OF bad(1), THEN conjunct1])
  then have rejected: "main all_succeed (command_line ''port'') =
     (Returned (- 1),
      \<lparr>proc_cerr = [Str (''Invalid port number '' @ [CHR 0x22]), Str ''port'',
                    Str ([CHR 0x22] @ ''\<newline>'')],
       proc_calls = [G_main_loop_unref, G_object_unref_soup_server]\<rparr>)"
    unfolding bad(2) .
  have "take 2 (proc_calls (snd (main all_succeed (command_line ''8080'')))) =
     [Soup_server_add_handler, Soup_server_listen_all (word_of_int 8080)]"
    by (rule port_validation_is_stoi
          [OF h(2) h(3) h(4), THEN conjunct2, THEN conjunct2, THEN conjunct1, rule_format,
           OF conjI [OF good]])
  then have accepted: "take 2 (proc_calls (snd (main all_succeed (command_line ''8080'')))) =
     [Soup_server_add_handler, Soup_server_listen_all 8080]"
    by simp
  from h(1,3,4) bad(1) rejected good(1) accepted show ?thesis by blast
qed

text \<open>
  C1. The claim: the exit status is non-zero when the construction of the graph fails.
  With a launch line that names no element \<open>stream\<close>, the constructor throws; the
  handler in \<open>main\<close> prints the exception, and control goes on to \<open>Quitting\<close> and
  \<open>return 0\<close>: the value returned is 0 and so is the exit status.
\<close>

theorem graph_construction_failure_returns_0:
  "http_stream_pipeline_ctor (construction_answers no_stream_element) (unnamed_command_line ! 2) =
     Inl (''no element with name '' @ [CHR 0x22] @ ''stream'' @ [CHR 0x22] @ '' found'') \<and>
   main no_stream_element unnamed_command_line =
     (Returned 0,
      \<lparr>proc_cerr = [Str ''Exception caught: '',
                    Str (''no element with name '' @ [CHR 0x22] @ ''stream'' @ [CHR 0x22] @ '' found''),
                    Str ''\<newline>'', Str ''Quitting\<newline>''],
       proc_calls = [G_main_loop_unref, G_object_unref_soup_server]\<rparr>) \<and>
   exit_status (fst (main no_stream_element unnamed_command_line)) = Some 0"
  by (simp add: main_defs no_stream_element_def all_succeed_def unnamed_command_line_def
      stoi_def isspace_def isdigit_def digits_value_def http_stream_pipeline_ctor_def Let_def)

text \<open>
  X1. The value \<open>main\<close> returns, for every environment and every argument list: -1 with
  fewer than five arguments, without a server or a main loop, with a port \<open>std::stoi\<close>
  rejects, and when listening fails; 0 when the constructor throws and when the main loop
  is quit.
\<close>

theorem main_return_value:
  "fst (main env argv) =
     (if 5 \<le> length argv \<and> soup_server_new_ok env \<and> main_loop_new_ok env
      then (case stoi (argv ! 1) of
              Inl e \<Rightarrow> Returned (- 1)
            | Inr v \<Rightarrow>
                (case http_stream_pipeline_ctor (construction_answers env) (argv ! 2) of
                   Inl what \<Rightarrow> Returned 0
                 | Inr pipeline \<Rightarrow>
                     (case listen_all_error env of
                        Some message \<Rightarrow> Returned (- 1)
                      | None \<Rightarrow>
                          (case run (schedule env) pipeline of
                             Inl thrown \<Rightarrow> Thrown_in_main_loop (fst thrown)
                           | Inr p \<Rightarrow> Returned 0))))
      else Returned (- 1))"
  by (auto simp add: main_def serve_def Let_def split: sum.split option.split prod.split)

end
